theory Spec2Isabelle
  imports Complex_Main "HOL-Library.Word"
begin

unbundle bit_operations_syntax

section \<open>The CUPS raster stream codec (filter/raster.c)\<close>

text \<open>
  A shallow embedding of \<^verbatim>\<open>src/filter/raster.c\<close>. Every C function keeps its name.
  A function that mutates the stream through the pointer \<^verbatim>\<open>r\<close> returns the updated
  stream; a function that writes through a destination pointer returns the bytes it
  stored, in order, and the caller puts them into the destination.
\<close>

subsection \<open>Bytes, memory and the operating system\<close>

type_synonym byte = "8 word"
type_synonym u32 = "32 word"

text \<open>
  C leaves four things the code can run into undefined; the model reports them:
  a division by zero, a write past the end of a row, a signed multiplication that
  overflows, and the use of a local variable that was never assigned.
\<close>

datatype fault = DivideByZero | OutOfBounds | SignedOverflow | Indeterminate

definition INT_MAX :: int where
  "INT_MAX = 2147483647"

text \<open>\<open>slice mem off n\<close> are the \<open>n\<close> bytes of \<open>mem\<close> from offset \<open>off\<close>;
  \<open>store mem off bs\<close> writes \<open>bs\<close> into \<open>mem\<close> at offset \<open>off\<close>.\<close>

definition slice :: "byte list \<Rightarrow> nat \<Rightarrow> nat \<Rightarrow> byte list" where
  "slice mem off n = take n (drop off mem)"

definition store :: "byte list \<Rightarrow> nat \<Rightarrow> byte list \<Rightarrow> byte list" where
  "store mem off bs = take off mem @ bs @ drop (off + length bs) mem"

text \<open>
  The descriptor is driven by a script: the outcome of each successive \<^verbatim>\<open>read(2)\<close>
  call. \<open>Chunk bs\<close> makes the bytes \<open>bs\<close> available (a call that asks for fewer
  leaves the rest for the next call; \<open>Chunk []\<close> is a read that returns 0), and
  \<open>Error e\<close> makes the call return -1 with \<^verbatim>\<open>errno\<close> \<open>e\<close>. When the script is
  exhausted the descriptor is at end of file and every read returns 0.
  For \<^verbatim>\<open>write(2)\<close>, \<open>Accept k\<close> takes at most \<open>k\<close> bytes of the request, and an
  exhausted script takes every request whole. \<open>heap\<close> scripts the checked
  allocations (\<open>False\<close>: the allocator returns NULL; exhausted: it succeeds).
\<close>

datatype errno = EINTR | EIO

datatype os_event = Chunk "byte list" | Error errno

datatype wr_event = Accept nat | WError errno

record world =
  input :: "os_event list"
  wscript :: "wr_event list"
  written :: "byte list"
  heap :: "bool list"

fun sys_read :: "os_event list \<Rightarrow> nat \<Rightarrow> (errno + byte list) \<times> os_event list" where
  "sys_read [] n = (Inr [], [])"
| "sys_read (Error e # es) n = (Inl e, es)"
| "sys_read (Chunk bs # es) n =
     (if length bs \<le> n then (Inr bs, es) else (Inr (take n bs), Chunk (drop n bs) # es))"

fun sys_write :: "wr_event list \<Rightarrow> nat \<Rightarrow> (errno + nat) \<times> wr_event list" where
  "sys_write [] n = (Inr n, [])"
| "sys_write (WError e # es) n = (Inl e, es)"
| "sys_write (Accept k # es) n = (Inr (min k n), es)"

definition alloc :: "world \<Rightarrow> bool \<times> world" where
  "alloc w = (case heap w of [] \<Rightarrow> (True, w) | ok # hs \<Rightarrow> (ok, w\<lparr>heap := hs\<rparr>))"

subsection \<open>\<^verbatim>\<open>cups_read\<close>, \<^verbatim>\<open>cups_write\<close> and \<^verbatim>\<open>cups_swap\<close>\<close>

text \<open>
  \<^verbatim>\<open>for (total = 0; total < bytes; total += count, buf += count)\<close>: one iteration
  either returns (\<open>Inl\<close>) or goes round again (\<open>Inr\<close>). \<open>buf\<close> collects the bytes
  stored so far; \<open>tot\<close> is the local \<^verbatim>\<open>total\<close>.
\<close>

type_synonym read_state = "int \<times> byte list \<times> os_event list"

definition cups_read_step :: "int \<Rightarrow> read_state \<Rightarrow> (int \<times> byte list \<times> os_event list) + read_state" where
  "cups_read_step bytes s =
     (case s of (tot, buf, es) \<Rightarrow>
        (case sys_read es (nat (bytes - tot)) of
           (Inr bs, es') \<Rightarrow>
              (let count = int (length bs) in
               if count = 0 then Inl (0, buf, es')
               else Inr (tot + count, buf @ bs, es'))
         | (Inl e, es') \<Rightarrow>
              (if e = EINTR then Inr (tot + 0, buf, es')
               else Inl (- 1, buf, es'))))"

function cups_read_loop :: "int \<Rightarrow> read_state \<Rightarrow> int \<times> byte list \<times> os_event list" where
  "cups_read_loop bytes (tot, buf, es) =
     (if tot < bytes then
        (case cups_read_step bytes (tot, buf, es) of
           Inl res \<Rightarrow> res
         | Inr s' \<Rightarrow> cups_read_loop bytes s')
      else (tot, buf, es))"
  by pat_completeness auto

lemma sys_read_length:
  "sys_read es n = (Inr bs, es') \<Longrightarrow> length bs \<le> n"
  by (cases "(es, n)" rule: sys_read.cases) (auto split: if_splits)

lemma sys_read_script:
  "sys_read es n = (res, es') \<Longrightarrow> length es' < length es \<or> (\<exists>bs. res = Inr bs \<and> (bs = [] \<or> length bs = n))"
  by (cases "(es, n)" rule: sys_read.cases) (auto split: if_splits)

lemma cups_read_step_decreases:
  assumes "cups_read_step bytes (tot, buf, es) = Inr (tot', buf', es')" and "tot < bytes"
  shows "nat (bytes - tot') < nat (bytes - tot)
         \<or> (nat (bytes - tot') = nat (bytes - tot) \<and> length es' < length es)"
proof (cases "sys_read es (nat (bytes - tot))")
  case (Pair res es1)
  show ?thesis
  proof (cases res)
    case (Inl e)
    with Pair assms have "tot' = tot" "es' = es1" "e = EINTR"
      by (auto simp: cups_read_step_def split: if_splits)
    moreover from Pair Inl have "length es1 < length es"
      using sys_read_script by fastforce
    ultimately show ?thesis by simp
  next
    case (Inr bs)
    with Pair assms have "tot' = tot + int (length bs)" "bs \<noteq> []"
      by (auto simp: cups_read_step_def Let_def split: if_splits)
    with assms(2) show ?thesis by auto
  qed
qed

termination cups_read_loop
proof (relation "measures [\<lambda>(bytes, tot, buf, es). nat (bytes - tot),
                           \<lambda>(bytes, tot, buf, es). length es]")
  show "wf (measures [\<lambda>(bytes, tot, buf, es). nat (bytes - tot),
                      \<lambda>(bytes, tot, buf, es). length es])"
    by simp
next
  fix bytes :: int and tot buf es s' and tot' buf' es'
  assume "tot < bytes" "cups_read_step bytes (tot, buf, es) = Inr s'"
  then show "((bytes, s'), (bytes, tot, buf, es))
        \<in> measures [\<lambda>(bytes, tot, buf, es). nat (bytes - tot),
                     \<lambda>(bytes, tot, buf, es). length es]"
    using cups_read_step_decreases [of bytes tot buf es "fst s'" "fst (snd s')" "snd (snd s')"]
    by (cases s') auto
qed

declare cups_read_loop.simps [simp del]

definition cups_read :: "world \<Rightarrow> int \<Rightarrow> int \<times> byte list \<times> world" where
  "cups_read w bytes =
     (case cups_read_loop bytes (0, [], input w) of
        (n, buf, es) \<Rightarrow> (n, buf, w\<lparr>input := es\<rparr>))"

text \<open>
  \<^verbatim>\<open>cups_write\<close> has the same loop, without the test for a count of 0. \<open>buf\<close> is
  the source buffer, of at least \<open>bytes\<close> bytes.
\<close>

type_synonym write_state = "int \<times> wr_event list \<times> byte list"

definition cups_write_step :: "byte list \<Rightarrow> int \<Rightarrow> write_state \<Rightarrow> write_state + write_state" where
  "cups_write_step buf bytes s =
     (case s of (tot, es, out) \<Rightarrow>
        (case sys_write es (nat (bytes - tot)) of
           (Inr k, es') \<Rightarrow> Inr (tot + int k, es', out @ slice buf (nat tot) k)
         | (Inl e, es') \<Rightarrow>
              (if e = EINTR then Inr (tot + 0, es', out)
               else Inl (- 1, es', out))))"

function cups_write_loop :: "byte list \<Rightarrow> int \<Rightarrow> write_state \<Rightarrow> write_state" where
  "cups_write_loop buf bytes (tot, es, out) =
     (if tot < bytes then
        (case cups_write_step buf bytes (tot, es, out) of
           Inl res \<Rightarrow> res
         | Inr s' \<Rightarrow> cups_write_loop buf bytes s')
      else (tot, es, out))"
  by pat_completeness auto

lemma cups_write_step_decreases:
  assumes "cups_write_step buf bytes (tot, es, out) = Inr (tot', es', out')" and "tot < bytes"
  shows "length es' < length es \<or> (length es' = length es \<and> nat (bytes - tot') < nat (bytes - tot))"
  using assms
  by (cases "(es, nat (bytes - tot))" rule: sys_write.cases)
     (auto simp: cups_write_step_def split: if_splits)

termination cups_write_loop
proof (relation "measures [\<lambda>(buf, bytes, tot, es, out). length es,
                           \<lambda>(buf, bytes, tot, es, out). nat (bytes - tot)]")
  show "wf (measures [\<lambda>(buf, bytes, tot, es, out). length es,
                      \<lambda>(buf, bytes, tot, es, out). nat (bytes - tot)])"
    by simp
next
  fix buf :: "byte list" and bytes :: int and tot es out s'
  assume "tot < bytes" "cups_write_step buf bytes (tot, es, out) = Inr s'"
  then show "((buf, bytes, s'), (buf, bytes, tot, es, out))
        \<in> measures [\<lambda>(buf, bytes, tot, es, out). length es,
                     \<lambda>(buf, bytes, tot, es, out). nat (bytes - tot)]"
    using cups_write_step_decreases [of buf bytes tot es out "fst s'" "fst (snd s')" "snd (snd s')"]
    by (cases s') auto
qed

declare cups_write_loop.simps [simp del]

definition cups_write :: "world \<Rightarrow> byte list \<Rightarrow> int \<Rightarrow> int \<times> world" where
  "cups_write w buf bytes =
     (case cups_write_loop buf bytes (0, wscript w, written w) of
        (n, es, out) \<Rightarrow> (n, w\<lparr>wscript := es, written := out\<rparr>))"

text \<open>
  \<^verbatim>\<open>cups_swap\<close>: \<^verbatim>\<open>bytes /= 2\<close>, then that many adjacent pairs are exchanged. A
  negative \<open>bytes\<close> gives no pair under C's division as under HOL's. Every call passes
  a buffer of at least \<open>bytes\<close> bytes; the last equation is for a shorter one; \<open>ev\<close> and \<open>od\<close> are the locals \<^verbatim>\<open>even\<close> and \<open>odd\<close>.
\<close>

fun swap_pairs :: "nat \<Rightarrow> byte list \<Rightarrow> byte list" where
  "swap_pairs 0 buf = buf"
| "swap_pairs (Suc n) (ev # od # buf) = od # ev # swap_pairs n buf"
| "swap_pairs (Suc n) buf = buf"

definition cups_swap :: "byte list \<Rightarrow> int \<Rightarrow> byte list" where
  "cups_swap buf bytes = swap_pairs (nat (bytes div 2)) buf"

subsection \<open>What \<^verbatim>\<open>raster.h\<close> and the host fix\<close>

text \<open>
  \<^verbatim>\<open>raster.h\<close> is not among the sources: the values of the sync words, of the colour
  orders and of the colour spaces, the sizes of the two header records and the place
  of each field in them are parameters of the model, as is the byte order of the
  host. \<open>cspace_of\<close> decodes the value of the \<^verbatim>\<open>cupsColorSpace\<close> field into the
  enumeration constant it equals, if any.
\<close>

datatype cups_mode_t = CUPS_RASTER_READ | CUPS_RASTER_WRITE

datatype cups_cspace_t =
    CUPS_CSPACE_W | CUPS_CSPACE_RGB | CUPS_CSPACE_RGBA | CUPS_CSPACE_K
  | CUPS_CSPACE_CMY | CUPS_CSPACE_YMC | CUPS_CSPACE_CMYK | CUPS_CSPACE_YMCK
  | CUPS_CSPACE_KCMY | CUPS_CSPACE_KCMYcm | CUPS_CSPACE_GMCK | CUPS_CSPACE_GMCS
  | CUPS_CSPACE_WHITE | CUPS_CSPACE_GOLD | CUPS_CSPACE_SILVER
  | CUPS_CSPACE_CIEXYZ | CUPS_CSPACE_CIELab | CUPS_CSPACE_RGBW
  | CUPS_CSPACE_ICC1 | CUPS_CSPACE_ICC2 | CUPS_CSPACE_ICC3 | CUPS_CSPACE_ICC4
  | CUPS_CSPACE_ICC5 | CUPS_CSPACE_ICC6 | CUPS_CSPACE_ICC7 | CUPS_CSPACE_ICC8
  | CUPS_CSPACE_ICC9 | CUPS_CSPACE_ICCA | CUPS_CSPACE_ICCB | CUPS_CSPACE_ICCC
  | CUPS_CSPACE_ICCD | CUPS_CSPACE_ICCE | CUPS_CSPACE_ICCF

record raster_h =
  CUPS_RASTER_SYNC :: u32
  CUPS_RASTER_REVSYNC :: u32
  CUPS_RASTER_SYNCv1 :: u32
  CUPS_RASTER_REVSYNCv1 :: u32
  CUPS_RASTER_SYNCv2 :: u32
  CUPS_RASTER_REVSYNCv2 :: u32
  CUPS_ORDER_CHUNKED :: u32
  CUPS_ORDER_PLANAR :: u32
  cspace_of :: "u32 \<Rightarrow> cups_cspace_t option"
  sizeof_header :: nat
  sizeof_header2 :: nat
  at_AdvanceDistance :: nat
  at_cupsHeight :: nat
  at_cupsBitsPerColor :: nat
  at_cupsBitsPerPixel :: nat
  at_cupsBytesPerLine :: nat
  at_cupsColorOrder :: nat
  at_cupsColorSpace :: nat
  at_cupsNumColors :: nat
  big_endian :: bool

text \<open>
  A 32-bit object in memory. \<open>le32 b0 b1 b2 b3\<close> is the value of the C expression
  \<^verbatim>\<open>(((((b3 << 8) | b2) << 8) | b1) << 8) | b0\<close> as an \<^verbatim>\<open>unsigned\<close>.
\<close>

definition le32 :: "byte \<Rightarrow> byte \<Rightarrow> byte \<Rightarrow> byte \<Rightarrow> u32" where
  "le32 b0 b1 b2 b3 =
     push_bit 8 (push_bit 8 (push_bit 8 (ucast b3) OR ucast b2) OR ucast b1) OR ucast b0"

definition mem_of_u32 :: "bool \<Rightarrow> u32 \<Rightarrow> byte list" where
  "mem_of_u32 be v =
     (let lsb = [ucast v, ucast (drop_bit 8 v), ucast (drop_bit 16 v), ucast (drop_bit 24 v)]
      in if be then rev lsb else lsb)"

definition u32_of_mem :: "bool \<Rightarrow> byte list \<Rightarrow> u32" where
  "u32_of_mem be mem =
     (case mem of
        b0 # b1 # b2 # b3 # _ \<Rightarrow> if be then le32 b3 b2 b1 b0 else le32 b0 b1 b2 b3
      | _ \<Rightarrow> 0)"

definition get32 :: "raster_h \<Rightarrow> byte list \<Rightarrow> nat \<Rightarrow> u32" where
  "get32 h hdr off = u32_of_mem (big_endian h) (drop off hdr)"

definition put32 :: "raster_h \<Rightarrow> byte list \<Rightarrow> nat \<Rightarrow> u32 \<Rightarrow> byte list" where
  "put32 h hdr off v = store hdr off (mem_of_u32 (big_endian h) v)"

definition cupsHeight :: "raster_h \<Rightarrow> byte list \<Rightarrow> u32" where
  "cupsHeight h hdr = get32 h hdr (at_cupsHeight h)"

definition cupsBitsPerColor :: "raster_h \<Rightarrow> byte list \<Rightarrow> u32" where
  "cupsBitsPerColor h hdr = get32 h hdr (at_cupsBitsPerColor h)"

definition cupsBitsPerPixel :: "raster_h \<Rightarrow> byte list \<Rightarrow> u32" where
  "cupsBitsPerPixel h hdr = get32 h hdr (at_cupsBitsPerPixel h)"

definition cupsBytesPerLine :: "raster_h \<Rightarrow> byte list \<Rightarrow> u32" where
  "cupsBytesPerLine h hdr = get32 h hdr (at_cupsBytesPerLine h)"

definition cupsColorOrder :: "raster_h \<Rightarrow> byte list \<Rightarrow> u32" where
  "cupsColorOrder h hdr = get32 h hdr (at_cupsColorOrder h)"

definition cupsColorSpace :: "raster_h \<Rightarrow> byte list \<Rightarrow> u32" where
  "cupsColorSpace h hdr = get32 h hdr (at_cupsColorSpace h)"

definition cupsNumColors :: "raster_h \<Rightarrow> byte list \<Rightarrow> u32" where
  "cupsNumColors h hdr = get32 h hdr (at_cupsNumColors h)"

subsection \<open>The stream\<close>

text \<open>
  \<^verbatim>\<open>struct _cups_raster_s\<close>. The header is the record as it lies in memory. The three
  pointers into the row buffer and the three into the read buffer are the contents
  of the buffer and offsets from its start. \<^verbatim>\<open>remaining\<close> is an \<^verbatim>\<open>int\<close> that the
  code updates in \<^verbatim>\<open>unsigned\<close> arithmetic: it is kept as its 32 bits, and \<open>sint\<close>
  reads it. \<^verbatim>\<open>count\<close>, \<^verbatim>\<open>bpp\<close> and \<^verbatim>\<open>bufsize\<close> are \<^verbatim>\<open>int\<close>s whose values stay far
  from the limits. \<^verbatim>\<open>compressed\<close> and \<^verbatim>\<open>swapped\<close> only ever hold 0 or 1.
\<close>

record cups_raster_t =
  sync :: u32
  fd :: int
  mode :: cups_mode_t
  header :: "byte list"
  count :: int
  remaining :: u32
  bpp :: int
  pixels :: "byte list"
  pend :: nat
  pcurrent :: nat
  compressed :: bool
  swapped :: bool
  buffer :: "byte list"
  bufptr :: nat
  bufend :: nat
  bufsize :: int

subsection \<open>\<^verbatim>\<open>cups_raster_update\<close>\<close>

text \<open>The \<^verbatim>\<open>switch\<close> on the colour space; the second argument is \<^verbatim>\<open>cupsBitsPerPixel\<close>.\<close>

fun cspace_colors :: "cups_cspace_t \<Rightarrow> u32 \<Rightarrow> u32" where
  "cspace_colors CUPS_CSPACE_W bits = 1"
| "cspace_colors CUPS_CSPACE_K bits = 1"
| "cspace_colors CUPS_CSPACE_WHITE bits = 1"
| "cspace_colors CUPS_CSPACE_GOLD bits = 1"
| "cspace_colors CUPS_CSPACE_SILVER bits = 1"
| "cspace_colors CUPS_CSPACE_RGB bits = 3"
| "cspace_colors CUPS_CSPACE_CMY bits = 3"
| "cspace_colors CUPS_CSPACE_YMC bits = 3"
| "cspace_colors CUPS_CSPACE_CIEXYZ bits = 3"
| "cspace_colors CUPS_CSPACE_CIELab bits = 3"
| "cspace_colors CUPS_CSPACE_ICC1 bits = 3"
| "cspace_colors CUPS_CSPACE_ICC2 bits = 3"
| "cspace_colors CUPS_CSPACE_ICC3 bits = 3"
| "cspace_colors CUPS_CSPACE_ICC4 bits = 3"
| "cspace_colors CUPS_CSPACE_ICC5 bits = 3"
| "cspace_colors CUPS_CSPACE_ICC6 bits = 3"
| "cspace_colors CUPS_CSPACE_ICC7 bits = 3"
| "cspace_colors CUPS_CSPACE_ICC8 bits = 3"
| "cspace_colors CUPS_CSPACE_ICC9 bits = 3"
| "cspace_colors CUPS_CSPACE_ICCA bits = 3"
| "cspace_colors CUPS_CSPACE_ICCB bits = 3"
| "cspace_colors CUPS_CSPACE_ICCC bits = 3"
| "cspace_colors CUPS_CSPACE_ICCD bits = 3"
| "cspace_colors CUPS_CSPACE_ICCE bits = 3"
| "cspace_colors CUPS_CSPACE_ICCF bits = 3"
| "cspace_colors CUPS_CSPACE_RGBA bits = 4"
| "cspace_colors CUPS_CSPACE_RGBW bits = 4"
| "cspace_colors CUPS_CSPACE_CMYK bits = 4"
| "cspace_colors CUPS_CSPACE_YMCK bits = 4"
| "cspace_colors CUPS_CSPACE_KCMY bits = 4"
| "cspace_colors CUPS_CSPACE_GMCK bits = 4"
| "cspace_colors CUPS_CSPACE_GMCS bits = 4"
| "cspace_colors CUPS_CSPACE_KCMYcm bits = (if bits < 8 then 6 else 4)"

text \<open>
  The row buffer comes from an unchecked \<^verbatim>\<open>calloc\<close>; the model takes it to succeed.
\<close>

definition cups_raster_update :: "raster_h \<Rightarrow> cups_raster_t \<Rightarrow> cups_raster_t" where
  "cups_raster_update h r =
     (let hdr =
            (if sync r = CUPS_RASTER_SYNCv1 h \<or> sync r = CUPS_RASTER_REVSYNCv1 h \<or>
                cupsNumColors h (header r) = 0
             then (case cspace_of h (cupsColorSpace h (header r)) of
                     Some cs \<Rightarrow> put32 h (header r) (at_cupsNumColors h)
                                  (cspace_colors cs (cupsBitsPerPixel h (header r)))
                   | None \<Rightarrow> header r)
             else header r);
          r1 = r\<lparr>header := hdr,
                 bpp := (if cupsColorOrder h hdr = CUPS_ORDER_CHUNKED h
                         then uint ((cupsBitsPerPixel h hdr + 7) div 8)
                         else uint ((cupsBitsPerColor h hdr + 7) div 8)),
                 remaining := (if cupsColorOrder h hdr = CUPS_ORDER_PLANAR h
                               then cupsHeight h hdr * cupsNumColors h hdr
                               else cupsHeight h hdr)\<rparr>
      in if compressed r1
         then r1\<lparr>pixels := replicate (unat (cupsBytesPerLine h hdr)) 0,
                 pcurrent := 0,
                 pend := unat (cupsBytesPerLine h hdr),
                 count := 0\<rparr>
         else r1)"

subsection \<open>\<^verbatim>\<open>cups_raster_read\<close>\<close>

text \<open>
  The state of the loop is the stream, the world and the locals \<^verbatim>\<open>total\<close>,
  \<^verbatim>\<open>remaining\<close> (here \<open>left\<close>) and the bytes stored into \<^verbatim>\<open>buf\<close> so far.
  \<open>raster_copy\<close> is the second half of the body, "Copy bytes from raster buffer to
  buf", with its three ways of copying, followed by the increment of the \<^verbatim>\<open>for\<close>.
  The hand loop counts \<^verbatim>\<open>total\<close> up and \<^verbatim>\<open>count\<close> down to 0 itself, so the increment
  then adds 0 (or a \<^verbatim>\<open>count\<close> that was not positive to begin with).
\<close>

type_synonym rr_state = "cups_raster_t \<times> world \<times> int \<times> int \<times> byte list"
type_synonym rr_result = "int \<times> byte list \<times> cups_raster_t \<times> world"

definition raster_copy :: "int \<Rightarrow> rr_state \<Rightarrow> rr_state" where
  "raster_copy count0 s =
     (case s of (r, w, tot, left, buf) \<Rightarrow>
        (let count = (if count0 > left then left else count0) in
         if count = 1 then
           (r\<lparr>bufptr := bufptr r + 1\<rparr>, w, tot + count, left - 1,
            buf @ slice (buffer r) (bufptr r) 1)
         else if count < 128 then
           (r\<lparr>bufptr := bufptr r + nat count\<rparr>, w,
            (tot + int (nat count)) + (if count > 0 then 0 else count), left - count,
            buf @ slice (buffer r) (bufptr r) (nat count))
         else
           (r\<lparr>bufptr := bufptr r + nat count\<rparr>, w, tot + count, left - count,
            buf @ slice (buffer r) (bufptr r) (nat count))))"

definition raster_read_step :: "int \<Rightarrow> rr_state \<Rightarrow> rr_result + rr_state" where
  "raster_read_step bytes s =
     (case s of (r, w, tot, left, buf) \<Rightarrow>
        (let count = bytes - tot in
         if left = 0 then
           (if count < 16 then
              (case cups_read w (bufsize r) of
                 (n, bs, w') \<Rightarrow>
                   (let r' = r\<lparr>buffer := store (buffer r) 0 bs\<rparr> in
                    if n \<le> 0 then Inl (0, buf, r', w')
                    else Inr (raster_copy count
                                (r'\<lparr>bufptr := 0, bufend := nat n\<rparr>, w', tot, n, buf))))
            else
              (case cups_read w count of
                 (n, bs, w') \<Rightarrow>
                   (if n \<le> 0 then Inl (0, buf @ bs, r, w')
                    else Inr (r, w', tot + n, left, buf @ bs))))
         else Inr (raster_copy count s)))"

function raster_read_loop :: "int \<Rightarrow> rr_state \<Rightarrow> rr_result" where
  "raster_read_loop bytes (r, w, tot, left, buf) =
     (if tot < bytes then
        (case raster_read_step bytes (r, w, tot, left, buf) of
           Inl res \<Rightarrow> res
         | Inr s' \<Rightarrow> raster_read_loop bytes s')
      else (tot, buf, r, w))"
  by pat_completeness auto

lemma raster_copy_decreases:
  assumes "raster_copy count0 (r, w, tot, left, buf) = (r', w', tot', left', buf')"
    and "0 < count0" and "left \<noteq> 0"
  shows "(left < 0 \<and> left' = 0) \<or> (0 < left \<and> 0 \<le> left' \<and> tot < tot')"
  using assms by (auto simp: raster_copy_def Let_def split: if_splits)

lemma raster_read_step_decreases:
  assumes "raster_read_step bytes (r, w, tot, left, buf) = Inr (r', w', tot', left', buf')"
    and "tot < bytes"
  shows "(left < 0 \<and> left' = 0) \<or> (0 \<le> left \<and> 0 \<le> left' \<and> tot < tot')"
proof (cases "left = 0")
  case False
  with assms raster_copy_decreases [of "bytes - tot" r w tot left buf r' w' tot' left' buf']
  show ?thesis by (auto simp: raster_read_step_def Let_def)
next
  case True
  show ?thesis
  proof (cases "bytes - tot < 16")
    case False
    with True assms show ?thesis
      by (auto simp: raster_read_step_def Let_def split: prod.splits if_splits)
  next
    case small: True
    obtain n bs w1 where rd: "cups_read w (bufsize r) = (n, bs, w1)"
      by (cases "cups_read w (bufsize r)") auto
    with True small assms have n: "0 < n"
      and cp: "raster_copy (bytes - tot)
                 (r\<lparr>buffer := store (buffer r) 0 bs, bufptr := 0, bufend := nat n\<rparr>, w1, tot, n, buf)
               = (r', w', tot', left', buf')"
      by (auto simp: raster_read_step_def Let_def split: if_splits)
    from raster_copy_decreases [OF cp] n assms(2) True show ?thesis by auto
  qed
qed

termination raster_read_loop
proof (relation "measures [\<lambda>(bytes, r, w, tot, left, buf). if left < 0 then 1 else 0,
                           \<lambda>(bytes, r, w, tot, left, buf). nat (bytes - tot)]")
  show "wf (measures [\<lambda>(bytes, r, w, tot, left, buf). if left < 0 then 1 else (0::nat),
                      \<lambda>(bytes, r, w, tot, left, buf). nat (bytes - tot)])"
    by simp
next
  fix bytes :: int and r :: cups_raster_t and w :: world and tot left :: int
    and buf :: "byte list" and s' :: rr_state
  assume a: "tot < bytes" "raster_read_step bytes (r, w, tot, left, buf) = Inr s'"
  obtain r' w' tot' left' buf' where s': "s' = (r', w', tot', left', buf')"
    by (cases s') auto
  from raster_read_step_decreases [of bytes r w tot left buf r' w' tot' left' buf'] a s'
  show "((bytes, s'), (bytes, r, w, tot, left, buf))
        \<in> measures [\<lambda>(bytes, r, w, tot, left, buf). if left < 0 then 1 else 0,
                     \<lambda>(bytes, r, w, tot, left, buf). nat (bytes - tot)]"
    by auto
qed

declare raster_read_loop.simps [simp del]

text \<open>
  The read buffer is grown to \<^verbatim>\<open>2 * cupsBytesPerLine\<close> first; the bytes a
  \<^verbatim>\<open>malloc\<close> or \<^verbatim>\<open>realloc\<close> adds are taken to be 0 (the code reads none of them
  before a refill has written them).
\<close>

definition cups_raster_read :: "raster_h \<Rightarrow> cups_raster_t \<Rightarrow> int \<Rightarrow> world \<Rightarrow> rr_result" where
  "cups_raster_read h r bytes w =
     (if \<not> compressed r then
        (case cups_read w bytes of (n, bs, w') \<Rightarrow> (n, bs, r, w'))
      else
        (let count = sint (2 * cupsBytesPerLine h (header r)) in
         if count > bufsize r then
           (case alloc w of
              (False, w') \<Rightarrow> (0, [], r, w')
            | (True, w') \<Rightarrow>
                raster_read_loop bytes
                  (r\<lparr>buffer := take (nat count) (buffer r @ replicate (nat count) 0),
                     bufsize := count\<rparr>,
                   w', 0, int (bufend r) - int (bufptr r), []))
         else raster_read_loop bytes (r, w, 0, int (bufend r) - int (bufptr r), [])))"

subsection \<open>Opening a stream and the page header\<close>

text \<open>
  \<^verbatim>\<open>calloc\<close> gives a stream of zero bytes: null pointers, empty buffers. The mode is
  assigned at once.
\<close>

definition calloc_raster :: "raster_h \<Rightarrow> int \<Rightarrow> cups_mode_t \<Rightarrow> cups_raster_t" where
  "calloc_raster h d m =
     \<lparr>sync = 0, fd = d, mode = m, header = replicate (sizeof_header2 h) 0, count = 0,
      remaining = 0, bpp = 0, pixels = [], pend = 0, pcurrent = 0,
      compressed = False, swapped = False, buffer = [], bufptr = 0, bufend = 0,
      bufsize = 0\<rparr>"

text \<open>
  In write mode the result of \<^verbatim>\<open>cups_write\<close>, an \<^verbatim>\<open>int\<close>, is compared with a
  \<^verbatim>\<open>sizeof\<close>: the comparison is unsigned, and -1 is not below 4.
\<close>

definition cupsRasterOpen :: "raster_h \<Rightarrow> int \<Rightarrow> cups_mode_t \<Rightarrow> world \<Rightarrow> cups_raster_t option \<times> world" where
  "cupsRasterOpen h d m w =
     (case alloc w of
        (False, w0) \<Rightarrow> (None, w0)
      | (True, w0) \<Rightarrow>
          (let r = calloc_raster h d m in
           if m = CUPS_RASTER_READ then
             (case cups_read w0 4 of
                (n, bs, w1) \<Rightarrow>
                  (let r1 = r\<lparr>sync := u32_of_mem (big_endian h) (store [0, 0, 0, 0] 0 bs)\<rparr> in
                   if n = 0 then (None, w1)
                   else if sync r1 \<noteq> CUPS_RASTER_SYNC h \<and>
                           sync r1 \<noteq> CUPS_RASTER_REVSYNC h \<and>
                           sync r1 \<noteq> CUPS_RASTER_SYNCv1 h \<and>
                           sync r1 \<noteq> CUPS_RASTER_REVSYNCv1 h \<and>
                           sync r1 \<noteq> CUPS_RASTER_SYNCv2 h \<and>
                           sync r1 \<noteq> CUPS_RASTER_REVSYNCv2 h
                   then (None, w1)
                   else
                     (let r2 = (if sync r1 = CUPS_RASTER_SYNCv2 h \<or>
                                   sync r1 = CUPS_RASTER_REVSYNCv2 h
                                then r1\<lparr>compressed := True\<rparr> else r1);
                          r3 = (if sync r2 = CUPS_RASTER_REVSYNC h \<or>
                                   sync r2 = CUPS_RASTER_REVSYNCv1 h \<or>
                                   sync r2 = CUPS_RASTER_REVSYNCv2 h
                                then r2\<lparr>swapped := True\<rparr> else r2)
                      in (Some r3, w1))))
           else
             (let r1 = r\<lparr>sync := CUPS_RASTER_SYNC h\<rparr> in
              case cups_write w0 (mem_of_u32 (big_endian h) (sync r1)) 4 of
                (n, w1) \<Rightarrow>
                  (if 0 \<le> n \<and> n < 4 then (None, w1) else (Some r1, w1)))))"

text \<open>
  The swap of the 81 words from \<^verbatim>\<open>AdvanceDistance\<close> on: each word is assigned the
  value \<open>le32\<close> of its own four bytes. The last equation is for a record that ends
  before the 81st word, which no header does.
\<close>

fun swap_words :: "bool \<Rightarrow> nat \<Rightarrow> byte list \<Rightarrow> byte list" where
  "swap_words be 0 mem = mem"
| "swap_words be (Suc len) (b0 # b1 # b2 # b3 # mem) =
     mem_of_u32 be (le32 b0 b1 b2 b3) @ swap_words be len mem"
| "swap_words be (Suc len) mem = mem"

definition swap_header :: "raster_h \<Rightarrow> byte list \<Rightarrow> byte list" where
  "swap_header h hdr =
     take (at_AdvanceDistance h) hdr @
     swap_words (big_endian h) 81 (drop (at_AdvanceDistance h) hdr)"

text \<open>
  \<^verbatim>\<open>cups_raster_read\<close> looks at the header, just cleared, before it stores anything
  into it.
\<close>

definition cups_raster_read_header :: "raster_h \<Rightarrow> cups_raster_t option \<Rightarrow> world \<Rightarrow> u32 \<times> cups_raster_t option \<times> world" where
  "cups_raster_read_header h ro w =
     (case ro of
        None \<Rightarrow> (0, None, w)
      | Some r \<Rightarrow>
          (if mode r \<noteq> CUPS_RASTER_READ then (0, Some r, w)
           else
             (let len = (if sync r = CUPS_RASTER_SYNCv1 h \<or> sync r = CUPS_RASTER_REVSYNCv1 h
                         then int (sizeof_header h) else int (sizeof_header2 h));
                  r1 = r\<lparr>header := replicate (sizeof_header2 h) 0\<rparr>
              in case cups_raster_read h r1 len w of
                   (n, bs, r2, w') \<Rightarrow>
                     (let r3 = r2\<lparr>header := store (header r2) 0 bs\<rparr> in
                      if n < len then (0, Some r3, w')
                      else
                        (let r4 = (if swapped r3 then r3\<lparr>header := swap_header h (header r3)\<rparr>
                                   else r3)
                         in (1, Some (cups_raster_update h r4), w'))))))"

text \<open>The two public readers copy the start of the stream's header out.\<close>

definition cupsRasterReadHeader :: "raster_h \<Rightarrow> cups_raster_t option \<Rightarrow> world \<Rightarrow> u32 \<times> byte list option \<times> cups_raster_t option \<times> world" where
  "cupsRasterReadHeader h ro w =
     (case cups_raster_read_header h ro w of
        (ok, ro', w') \<Rightarrow>
          (case ro' of
             Some r' \<Rightarrow> if ok = 0 then (0, None, ro', w')
                        else (1, Some (slice (header r') 0 (sizeof_header h)), ro', w')
           | None \<Rightarrow> (0, None, ro', w')))"

definition cupsRasterReadHeader2 :: "raster_h \<Rightarrow> cups_raster_t option \<Rightarrow> world \<Rightarrow> u32 \<times> byte list option \<times> cups_raster_t option \<times> world" where
  "cupsRasterReadHeader2 h ro w =
     (case cups_raster_read_header h ro w of
        (ok, ro', w') \<Rightarrow>
          (case ro' of
             Some r' \<Rightarrow> if ok = 0 then (0, None, ro', w')
                        else (1, Some (slice (header r') 0 (sizeof_header2 h)), ro', w')
           | None \<Rightarrow> (0, None, ro', w')))"

text \<open>
  The writers: \<open>hd1\<close> is the caller's V1 record, \<open>hd2\<close> the caller's V2 record.
\<close>

definition cupsRasterWriteHeader :: "raster_h \<Rightarrow> cups_raster_t option \<Rightarrow> byte list \<Rightarrow> world \<Rightarrow> u32 \<times> cups_raster_t option \<times> world" where
  "cupsRasterWriteHeader h ro hd1 w =
     (case ro of
        None \<Rightarrow> (0, None, w)
      | Some r \<Rightarrow>
          (if mode r \<noteq> CUPS_RASTER_WRITE then (0, Some r, w)
           else
             (let r1 = r\<lparr>header := replicate (sizeof_header2 h) 0\<rparr>;
                  r2 = r1\<lparr>header := store (header r1) 0 (slice hd1 0 (sizeof_header h))\<rparr>;
                  r3 = cups_raster_update h r2
              in case cups_write w (header r3) (int (sizeof_header2 h)) of
                   (n, w') \<Rightarrow> (if n > 0 then 1 else 0, Some r3, w'))))"

definition cupsRasterWriteHeader2 :: "raster_h \<Rightarrow> cups_raster_t option \<Rightarrow> byte list \<Rightarrow> world \<Rightarrow> u32 \<times> cups_raster_t option \<times> world" where
  "cupsRasterWriteHeader2 h ro hd2 w =
     (case ro of
        None \<Rightarrow> (0, None, w)
      | Some r \<Rightarrow>
          (if mode r \<noteq> CUPS_RASTER_WRITE then (0, Some r, w)
           else
             (let r2 = r\<lparr>header := store (header r) 0 (slice hd2 0 (sizeof_header2 h))\<rparr>;
                  r3 = cups_raster_update h r2
              in case cups_write w (header r3) (int (sizeof_header2 h)) of
                   (n, w') \<Rightarrow> (if n > 0 then 1 else 0, Some r3, w'))))"

subsection \<open>\<^verbatim>\<open>cupsRasterWritePixels\<close>\<close>

text \<open>
  \<open>len\<close> is \<^verbatim>\<open>unsigned\<close>; \<^verbatim>\<open>cups_write\<close> takes it as an \<^verbatim>\<open>int\<close> and its result is
  returned as \<^verbatim>\<open>unsigned\<close>.
\<close>

definition cupsRasterWritePixels :: "raster_h \<Rightarrow> cups_raster_t option \<Rightarrow> byte list \<Rightarrow> u32 \<Rightarrow> world \<Rightarrow> fault + (u32 \<times> cups_raster_t option \<times> world)" where
  "cupsRasterWritePixels h ro p len w =
     (case ro of
        None \<Rightarrow> Inr (0, None, w)
      | Some r \<Rightarrow>
          (if mode r \<noteq> CUPS_RASTER_WRITE \<or> remaining r = 0 then Inr (0, Some r, w)
           else if cupsBytesPerLine h (header r) = 0 then Inl DivideByZero
           else
             (let r1 = r\<lparr>remaining := remaining r - len div cupsBytesPerLine h (header r)\<rparr>
              in case cups_write w p (sint len) of
                   (n, w') \<Rightarrow> Inr (word_of_int n, Some r1, w'))))"

subsection \<open>\<^verbatim>\<open>cupsRasterReadPixels\<close>\<close>

text \<open>
  How a piece of the function can end: in undefined behaviour, by \<^verbatim>\<open>return (0)\<close>
  (\<open>Fail\<close>), or by leaving its loop (\<open>Exit\<close>).
\<close>

datatype 's outcome = Fault fault | Fail 's | Exit 's

text \<open>
  The replay of a pel: \<^verbatim>\<open>while (count > 0) { memcpy(temp, temp - bpp, bpp); ... }\<close>
  on the row \<open>row\<close>, \<open>temp\<close> being an offset into it. A copy that would end past the
  row is the fault. The loop is entered only after \<open>width = bpp\<close> bytes have been
  read, so \<open>width\<close> is positive there.
\<close>

function repeat_pel :: "int \<Rightarrow> byte list \<Rightarrow> nat \<Rightarrow> int \<Rightarrow> fault + (byte list \<times> nat)" where
  "repeat_pel width row temp cnt =
     (if cnt > 0 \<and> width > 0 then
        (if temp + nat width > length row then Inl OutOfBounds
         else repeat_pel width (store row temp (slice row (temp - nat width) (nat width)))
                (temp + nat width) (cnt - width))
      else Inr (row, temp))"
  by pat_completeness auto
termination
  by (relation "measure (\<lambda>(width, row, temp, cnt). nat cnt)") auto

declare repeat_pel.simps [simp del]

text \<open>
  One opcode of the row. The state is the stream, the world, the row being filled
  (the memory \<^verbatim>\<open>ptr\<close> points to), the offset \<^verbatim>\<open>temp\<close> into it and the budget
  \<^verbatim>\<open>bytes\<close>. \<open>literal_run\<close> is the branch "Copy N literal pixels", \<open>repeat_run\<close>
  the branch "Repeat the next N bytes"; both get the opcode \<open>byte\<close>.
\<close>

type_synonym unpack_state = "cups_raster_t \<times> world \<times> byte list \<times> nat \<times> int"

definition literal_run :: "raster_h \<Rightarrow> byte \<Rightarrow> unpack_state \<Rightarrow> unpack_state outcome + unpack_state" where
  "literal_run h byte s =
     (case s of (r, w, row, temp, bytes) \<Rightarrow>
        (if (257 - uint byte) * bpp r > INT_MAX then Inl (Fault SignedOverflow)
         else
           (let count0 = (257 - uint byte) * bpp r;
                count = (if count0 > bytes then bytes else count0)
            in case cups_raster_read h r count w of
                 (n, bs, r', w') \<Rightarrow>
                   (if n = 0 then Inl (Fail (r', w', store row temp bs, temp, bytes))
                    else Inr (r', w', store row temp bs, temp + nat count, bytes - count)))))"

definition repeat_run :: "raster_h \<Rightarrow> byte \<Rightarrow> unpack_state \<Rightarrow> unpack_state outcome + unpack_state" where
  "repeat_run h byte s =
     (case s of (r, w, row, temp, bytes) \<Rightarrow>
        (if (uint byte + 1) * bpp r > INT_MAX then Inl (Fault SignedOverflow)
         else
           (let count0 = (uint byte + 1) * bpp r;
                count = (if count0 > bytes then bytes else count0)
            in if count < bpp r then Inl (Exit (r, w, row, temp, bytes))
               else
                 (case cups_raster_read h r (bpp r) w of
                    (n, bs, r', w') \<Rightarrow>
                      (if n = 0 then Inl (Fail (r', w', store row temp bs, temp, bytes - count))
                       else
                         (case repeat_pel (bpp r') (store row temp bs)
                                 (temp + nat (bpp r')) (count - bpp r') of
                            Inl f \<Rightarrow> Inl (Fault f)
                          | Inr (row', temp') \<Rightarrow> Inr (r', w', row', temp', bytes - count)))))))"

definition unpack_step :: "raster_h \<Rightarrow> unpack_state \<Rightarrow> unpack_state outcome + unpack_state" where
  "unpack_step h s =
     (case s of (r, w, row, temp, bytes) \<Rightarrow>
        (case cups_raster_read h r 1 w of
           (n, bs, r', w') \<Rightarrow>
             (if n = 0 then Inl (Fail (r', w', row, temp, bytes))
              else
                (case bs of
                   [] \<Rightarrow> Inl (Fault Indeterminate)
                 | byte # _ \<Rightarrow>
                     (if byte AND 128 \<noteq> 0 then literal_run h byte (r', w', row, temp, bytes)
                      else repeat_run h byte (r', w', row, temp, bytes))))))"

function unpack_loop :: "raster_h \<Rightarrow> unpack_state \<Rightarrow> unpack_state outcome" where
  "unpack_loop h (r, w, row, temp, bytes) =
     (if bytes > 0 then
        (case unpack_step h (r, w, row, temp, bytes) of
           Inl out \<Rightarrow> out
         | Inr s' \<Rightarrow> unpack_loop h s')
      else Exit (r, w, row, temp, bytes))"
  by pat_completeness auto

lemma cups_read_nonpos: "bytes \<le> 0 \<Longrightarrow> cups_read w bytes = (0, [], w)"
  by (simp add: cups_read_def cups_read_loop.simps)

lemma cups_raster_read_nonzero:
  assumes "cups_raster_read h r bytes w = (n, bs, r', w')" and "n \<noteq> 0"
  shows "0 < bytes"
proof (rule ccontr)
  assume "\<not> 0 < bytes"
  then have b: "bytes \<le> 0" by simp
  show False
  proof (cases "compressed r")
    case False
    with assms b show False by (simp add: cups_raster_read_def cups_read_nonpos)
  next
    case True
    have loop: "raster_read_loop bytes (r0, w0, 0, l0, []) = (0, [], r0, w0)" for r0 w0 l0
      using b by (simp add: raster_read_loop.simps)
    from True assms show False
      unfolding cups_raster_read_def Let_def loop
      by (simp split: if_splits prod.splits bool.splits)
  qed
qed

lemma literal_run_decreases:
  assumes "literal_run h byte (r, w, row, temp, bytes) = Inr (r', w', row', temp', bytes')"
  shows "bytes' < bytes"
proof -
  define cnt where "cnt = (if (257 - uint byte) * bpp r > bytes then bytes else (257 - uint byte) * bpp r)"
  obtain n2 bs2 r2 w2 where rd2: "cups_raster_read h r cnt w = (n2, bs2, r2, w2)"
    by (cases "cups_raster_read h r cnt w") auto
  from assms have "n2 \<noteq> 0 \<and> bytes' = bytes - cnt"
    unfolding literal_run_def Let_def prod.case cnt_def [symmetric] rd2
    by (simp split: if_splits)
  with cups_raster_read_nonzero [OF rd2] show ?thesis by simp
qed

lemma repeat_run_decreases:
  assumes "repeat_run h byte (r, w, row, temp, bytes) = Inr (r', w', row', temp', bytes')"
  shows "bytes' < bytes"
proof -
  define cnt where "cnt = (if (uint byte + 1) * bpp r > bytes then bytes else (uint byte + 1) * bpp r)"
  obtain n2 bs2 r2 w2 where rd2: "cups_raster_read h r (bpp r) w = (n2, bs2, r2, w2)"
    by (cases "cups_raster_read h r (bpp r) w") auto
  from assms have "n2 \<noteq> 0 \<and> bytes' = bytes - cnt \<and> bpp r \<le> cnt"
    unfolding repeat_run_def Let_def prod.case cnt_def [symmetric] rd2
    by (simp split: if_splits sum.splits prod.splits)
  with cups_raster_read_nonzero [OF rd2] show ?thesis by simp
qed

lemma unpack_step_decreases:
  assumes "unpack_step h (r, w, row, temp, bytes) = Inr (r', w', row', temp', bytes')"
  shows "bytes' < bytes"
proof -
  obtain n bs r1 w1 where rd: "cups_raster_read h r 1 w = (n, bs, r1, w1)"
    by (cases "cups_raster_read h r 1 w") auto
  from assms obtain byte bs' where bs: "bs = byte # bs'" and n: "n \<noteq> 0"
    unfolding unpack_step_def prod.case rd
    by (cases bs) (simp_all split: if_splits)
  from assms have "literal_run h byte (r1, w1, row, temp, bytes) = Inr (r', w', row', temp', bytes')
     \<or> repeat_run h byte (r1, w1, row, temp, bytes) = Inr (r', w', row', temp', bytes')"
    unfolding unpack_step_def prod.case rd bs
    using n by (simp split: if_splits)
  then show ?thesis
  proof
    assume "literal_run h byte (r1, w1, row, temp, bytes) = Inr (r', w', row', temp', bytes')"
    then show ?thesis by (rule literal_run_decreases)
  next
    assume "repeat_run h byte (r1, w1, row, temp, bytes) = Inr (r', w', row', temp', bytes')"
    then show ?thesis by (rule repeat_run_decreases)
  qed
qed

termination unpack_loop
proof (relation "measure (\<lambda>(h, r, w, row, temp, bytes). nat bytes)")
  show "wf (measure (\<lambda>(h, r, w, row, temp, bytes). nat bytes))" by simp
next
  fix h :: raster_h and r :: cups_raster_t and w :: world and row :: "byte list"
    and temp :: nat and bytes :: int and s' :: unpack_state
  assume a: "0 < bytes" "unpack_step h (r, w, row, temp, bytes) = Inr s'"
  obtain r' w' row' temp' bytes' where s': "s' = (r', w', row', temp', bytes')"
    by (cases s') auto
  from unpack_step_decreases [of h r w row temp bytes r' w' row' temp' bytes'] a s'
  show "((h, s'), (h, r, w, row, temp, bytes)) \<in> measure (\<lambda>(h, r, w, row, temp, bytes). nat bytes)"
    by auto
qed

declare unpack_loop.simps [simp del]

text \<open>
  Reading changes the read buffer of a stream and nothing else of it; the outer loop
  of \<^verbatim>\<open>cupsRasterReadPixels\<close> needs this to terminate.
\<close>

definition same_page :: "cups_raster_t \<Rightarrow> cups_raster_t \<Rightarrow> bool" where
  "same_page r r' \<longleftrightarrow>
     sync r' = sync r \<and> fd r' = fd r \<and> mode r' = mode r \<and> header r' = header r \<and>
     count r' = count r \<and> remaining r' = remaining r \<and> bpp r' = bpp r \<and>
     pixels r' = pixels r \<and> pend r' = pend r \<and> pcurrent r' = pcurrent r \<and>
     compressed r' = compressed r \<and> swapped r' = swapped r"

lemma same_page_refl [simp]: "same_page r r"
  by (simp add: same_page_def)

lemma same_page_trans: "same_page r r' \<Longrightarrow> same_page r' r'' \<Longrightarrow> same_page r r''"
  by (simp add: same_page_def)

lemma same_page_upd [simp]:
  "same_page r (r\<lparr>bufptr := a\<rparr>)"
  "same_page r (r\<lparr>buffer := b\<rparr>)"
  "same_page r (r\<lparr>buffer := b, bufptr := a, bufend := c\<rparr>)"
  "same_page r (r\<lparr>buffer := b, bufsize := d\<rparr>)"
  by (simp_all add: same_page_def)

lemma raster_copy_same:
  "raster_copy c (r, w, tot, left, buf) = (r', w', tot', left', buf') \<Longrightarrow> same_page r r'"
  by (auto simp: raster_copy_def Let_def split: if_splits)

lemma raster_read_step_same:
  assumes "raster_read_step bytes (r, w, tot, left, buf) = res"
  shows "case res of Inl (n, bs, r', w') \<Rightarrow> same_page r r' | Inr (r', w', tot', left', buf') \<Rightarrow> same_page r r'"
proof -
  obtain n1 bs1 w1 where rd1: "cups_read w (bufsize r) = (n1, bs1, w1)"
    by (cases "cups_read w (bufsize r)") auto
  obtain n2 bs2 w2 where rd2: "cups_read w (bytes - tot) = (n2, bs2, w2)"
    by (cases "cups_read w (bytes - tot)") auto
  obtain r3 w3 tot3 left3 buf3 where c3: "raster_copy (bytes - tot) (r, w, tot, left, buf) = (r3, w3, tot3, left3, buf3)"
    by (cases "raster_copy (bytes - tot) (r, w, tot, left, buf)") auto
  obtain r4 w4 tot4 left4 buf4 where c4: "raster_copy (bytes - tot)
      (r\<lparr>buffer := store (buffer r) 0 bs1, bufptr := 0, bufend := nat n1\<rparr>, w1, tot, n1, buf) = (r4, w4, tot4, left4, buf4)"
    by (cases "raster_copy (bytes - tot)
      (r\<lparr>buffer := store (buffer r) 0 bs1, bufptr := 0, bufend := nat n1\<rparr>, w1, tot, n1, buf)") auto
  from raster_copy_same [OF c4] have s4: "same_page r r4"
    using same_page_trans same_page_upd(3) by blast
  from raster_copy_same [OF c3] have s3: "same_page r r3" .
  from assms [symmetric] s3 s4 show ?thesis
    unfolding raster_read_step_def Let_def prod.case rd1 rd2 c3 c4
    by (simp split: if_splits)
qed


lemma raster_read_loop_same:
  "raster_read_loop bytes (r, w, tot, left, buf) = (n, bs, r', w') \<Longrightarrow> same_page r r'"
proof (induction bytes "(r, w, tot, left, buf)" arbitrary: r w tot left buf rule: raster_read_loop.induct)
  case (1 bytes r w tot left buf)
  show ?case
  proof (cases "tot < bytes")
    case False
    with "1.prems" show ?thesis by (simp add: raster_read_loop.simps)
  next
    case True
    show ?thesis
    proof (cases "raster_read_step bytes (r, w, tot, left, buf)")
      case (Inl res)
      with True "1.prems" have "res = (n, bs, r', w')" by (simp add: raster_read_loop.simps)
      with raster_read_step_same [OF Inl] show ?thesis by simp
    next
      case (Inr s')
      obtain r1 w1 tot1 left1 buf1 where s': "s' = (r1, w1, tot1, left1, buf1)" by (cases s') auto
      from raster_read_step_same [OF Inr] s' have a: "same_page r r1" by simp
      from True Inr "1.prems" s' have "raster_read_loop bytes (r1, w1, tot1, left1, buf1) = (n, bs, r', w')"
        by (simp add: raster_read_loop.simps)
      with "1.hyps" [OF True Inr [unfolded s']] have "same_page r1 r'" .
      with a show ?thesis by (rule same_page_trans)
    qed
  qed
qed

lemma cups_raster_read_same:
  assumes "cups_raster_read h r bytes w = (n, bs, r', w')"
  shows "same_page r r'"
proof (cases "compressed r")
  case False
  with assms show ?thesis by (auto simp: cups_raster_read_def split: prod.splits)
next
  case True
  show ?thesis
  proof (cases "sint (2 * cupsBytesPerLine h (header r)) > bufsize r")
    case False
    with True assms show ?thesis
      by (auto simp: cups_raster_read_def Let_def dest: raster_read_loop_same)
  next
    case grow: True
    obtain ok w0 where al: "alloc w = (ok, w0)" by (cases "alloc w") auto
    show ?thesis
    proof (cases ok)
      case False
      with True grow al assms show ?thesis by (auto simp: cups_raster_read_def Let_def)
    next
      case ok: True
      with True grow al assms have "raster_read_loop bytes
             (r\<lparr>buffer := take (nat (sint (2 * cupsBytesPerLine h (header r))))
                    (buffer r @ replicate (nat (sint (2 * cupsBytesPerLine h (header r)))) 0),
                bufsize := sint (2 * cupsBytesPerLine h (header r))\<rparr>,
              w0, 0, int (bufend r) - int (bufptr r), []) = (n, bs, r', w')"
        by (simp add: cups_raster_read_def Let_def)
      from raster_read_loop_same [OF this] show ?thesis
        using same_page_trans same_page_upd(4) by blast
    qed
  qed
qed


fun out_page :: "cups_raster_t \<Rightarrow> unpack_state outcome \<Rightarrow> bool" where
  "out_page r (Fault f) = True"
| "out_page r (Fail (r', x)) = same_page r r'"
| "out_page r (Exit (r', x)) = same_page r r'"

lemma literal_run_same:
  assumes "literal_run h byte (r, w, row, temp, bytes) = res"
  shows "case res of Inl out \<Rightarrow> out_page r out | Inr (r', x) \<Rightarrow> same_page r r'"
proof -
  define cnt where "cnt = (if (257 - uint byte) * bpp r > bytes then bytes else (257 - uint byte) * bpp r)"
  obtain n2 bs2 r2 w2 where rd2: "cups_raster_read h r cnt w = (n2, bs2, r2, w2)"
    by (cases "cups_raster_read h r cnt w") auto
  from cups_raster_read_same [OF rd2] assms [symmetric] show ?thesis
    unfolding literal_run_def Let_def prod.case cnt_def [symmetric] rd2
    by (simp split: if_splits)
qed

lemma repeat_run_same:
  assumes "repeat_run h byte (r, w, row, temp, bytes) = res"
  shows "case res of Inl out \<Rightarrow> out_page r out | Inr (r', x) \<Rightarrow> same_page r r'"
proof -
  define cnt where "cnt = (if (uint byte + 1) * bpp r > bytes then bytes else (uint byte + 1) * bpp r)"
  obtain n2 bs2 r2 w2 where rd2: "cups_raster_read h r (bpp r) w = (n2, bs2, r2, w2)"
    by (cases "cups_raster_read h r (bpp r) w") auto
  from cups_raster_read_same [OF rd2] assms [symmetric] show ?thesis
    unfolding repeat_run_def Let_def prod.case cnt_def [symmetric] rd2
    by (simp split: if_splits sum.splits prod.splits)
qed

lemma unpack_step_same:
  assumes "unpack_step h (r, w, row, temp, bytes) = res"
  shows "case res of Inl out \<Rightarrow> out_page r out | Inr (r', x) \<Rightarrow> same_page r r'"
proof -
  obtain n bs r1 w1 where rd: "cups_raster_read h r 1 w = (n, bs, r1, w1)"
    by (cases "cups_raster_read h r 1 w") auto
  note p1 = cups_raster_read_same [OF rd]
  show ?thesis
  proof (cases "n = 0 \<or> bs = []")
    case True
    with assms [symmetric] p1 show ?thesis
      unfolding unpack_step_def prod.case rd by (auto split: list.splits)
  next
    case False
    then obtain byte bs' where bs: "bs = byte # bs'" and n: "n \<noteq> 0" by (cases bs) auto
    show ?thesis
    proof (cases "byte AND 128 \<noteq> 0")
      case True
      with assms n have "literal_run h byte (r1, w1, row, temp, bytes) = res"
        unfolding unpack_step_def prod.case rd bs by simp
      from literal_run_same [OF this] p1 show ?thesis
        by (cases res; cases "projl res") (auto split: prod.splits intro: same_page_trans)
    next
      case False
      with assms n have "repeat_run h byte (r1, w1, row, temp, bytes) = res"
        unfolding unpack_step_def prod.case rd bs by simp
      from repeat_run_same [OF this] p1 show ?thesis
        by (cases res; cases "projl res") (auto split: prod.splits intro: same_page_trans)
    qed
  qed
qed

lemma unpack_loop_same:
  "unpack_loop h (r, w, row, temp, bytes) = out \<Longrightarrow> out_page r out"
proof (induction h "(r, w, row, temp, bytes)" arbitrary: r w row temp bytes rule: unpack_loop.induct)
  case (1 h r w row temp bytes)
  show ?case
  proof (cases "0 < bytes")
    case False
    with "1.prems" show ?thesis by (auto simp: unpack_loop.simps)
  next
    case True
    show ?thesis
    proof (cases "unpack_step h (r, w, row, temp, bytes)")
      case (Inl res)
      with True "1.prems" have "res = out" by (simp add: unpack_loop.simps)
      with unpack_step_same [OF Inl] show ?thesis by simp
    next
      case (Inr s')
      obtain r1 w1 row1 temp1 bytes1 where s': "s' = (r1, w1, row1, temp1, bytes1)" by (cases s') auto
      from unpack_step_same [OF Inr] s' have a: "same_page r r1" by simp
      from True Inr "1.prems" s' have "unpack_loop h (r1, w1, row1, temp1, bytes1) = out"
        by (simp add: unpack_loop.simps)
      with "1.hyps" [OF True Inr [unfolded s']] have "out_page r1 out" .
      with a show ?thesis by (cases out) (auto intro: same_page_trans)
    qed
  qed
qed


text \<open>
  The test that guards both calls of \<^verbatim>\<open>cups_swap\<close>.
\<close>

definition swap_needed :: "raster_h \<Rightarrow> cups_raster_t \<Rightarrow> bool" where
  "swap_needed h r \<longleftrightarrow>
     (cupsBitsPerColor h (header r) = 16 \<or> cupsBitsPerPixel h (header r) = 12 \<or>
      cupsBitsPerPixel h (header r) = 16) \<and> swapped r"

text \<open>
  The outer loop \<^verbatim>\<open>while (remaining > 0 && r->remaining > 0)\<close>. Its state is the
  stream, the world, the caller's buffer \<open>p\<close> (all \<open>len\<close> bytes of it), the offset
  \<open>poff\<close> the pointer \<^verbatim>\<open>p\<close> has advanced to, and the local \<^verbatim>\<open>remaining\<close> (here
  \<open>left\<close>). \<open>new_row\<close> is the branch \<^verbatim>\<open>r->count == 0\<close> up to the end of the opcode
  loop, \<open>row_done\<close> the rest of that branch, from "Swap bytes as needed" on, and
  \<open>fragment\<close> the branch "Copy fragment from buffer". \<open>direct\<close> says that \<^verbatim>\<open>ptr\<close> is
  \<^verbatim>\<open>p\<close> and not \<^verbatim>\<open>r->pixels\<close>; the row is then the next \<^verbatim>\<open>cupsBytesPerLine\<close> bytes of
  the caller's buffer. A \<^verbatim>\<open>memcpy\<close> of a negative length is a fault.
\<close>

type_synonym px_state = "cups_raster_t \<times> world \<times> byte list \<times> nat \<times> u32"
type_synonym px_result = "cups_raster_t \<times> world \<times> byte list"

definition row_done :: "raster_h \<Rightarrow> bool \<Rightarrow> byte list \<Rightarrow> nat \<Rightarrow> u32 \<Rightarrow> unpack_state \<Rightarrow> px_result outcome + px_state" where
  "row_done h direct p poff left u =
     (case u of (r, w, row, temp, bytes) \<Rightarrow>
        (let L = cupsBytesPerLine h (header r);
             row' = (if swap_needed h r then cups_swap row bytes else row);
             r1 = (if direct then r else r\<lparr>pixels := row'\<rparr>);
             p1 = (if direct then store p poff row' else p);
             bytes' = (if left \<ge> L then sint L else sint left);
             r2 = (if left \<ge> L
                   then r1\<lparr>pcurrent := 0, count := count r1 - 1, remaining := remaining r1 - 1\<rparr>
                   else r1\<lparr>pcurrent := nat bytes'\<rparr>)
         in if direct then Inr (r2, w, p1, poff + nat bytes', left - word_of_int bytes')
            else if bytes' < 0 then Inl (Fault OutOfBounds)
            else Inr (r2, w, store p1 poff (slice (pixels r2) 0 (nat bytes')),
                      poff + nat bytes', left - word_of_int bytes')))"

definition new_row :: "raster_h \<Rightarrow> px_state \<Rightarrow> px_result outcome + px_state" where
  "new_row h s =
     (case s of (r, w, p, poff, left) \<Rightarrow>
        (case cups_raster_read h r 1 w of
           (n, bs, r1, w1) \<Rightarrow>
             (if n = 0 then Inl (Fail (r1, w1, p))
              else
                (case bs of
                   [] \<Rightarrow> Inl (Fault Indeterminate)
                 | byte # _ \<Rightarrow>
                     (let L = cupsBytesPerLine h (header r);
                          r2 = r1\<lparr>count := uint byte + 1\<rparr>;
                          direct = (left = L \<and> \<not> count r2 > 1);
                          row = (if direct then slice p poff (unat L) else pixels r2)
                      in case unpack_loop h (r2, w1, row, 0, sint L) of
                           Fault f \<Rightarrow> Inl (Fault f)
                         | Fail (r3, w3, row', temp, bytes) \<Rightarrow>
                             Inl (Fail (if direct then (r3, w3, store p poff row')
                                        else (r3\<lparr>pixels := row'\<rparr>, w3, p)))
                         | Exit u \<Rightarrow> row_done h direct p poff left u)))))"

definition fragment :: "px_state \<Rightarrow> px_result outcome + px_state" where
  "fragment s =
     (case s of (r, w, p, poff, left) \<Rightarrow>
        (let bytes0 = int (pend r) - int (pcurrent r);
             bytes = (if (word_of_int bytes0 :: u32) > left then sint left else bytes0)
         in if bytes < 0 then Inl (Fault OutOfBounds)
            else
              (let p1 = store p poff (slice (pixels r) (pcurrent r) (nat bytes));
                   r1 = r\<lparr>pcurrent := pcurrent r + nat bytes\<rparr>;
                   r2 = (if pcurrent r1 \<ge> pend r1
                         then r1\<lparr>pcurrent := 0, count := count r1 - 1, remaining := remaining r1 - 1\<rparr>
                         else r1)
               in Inr (r2, w, p1, poff + nat bytes, left - word_of_int bytes))))"

definition px_measure :: "px_state \<Rightarrow> nat" where
  "px_measure s = (case s of (r, w, p, poff, left) \<Rightarrow> nat (sint (remaining r)) + unat left)"

lemma sint_pred: "0 <s (x :: u32) \<Longrightarrow> sint (x - 1) = sint x - 1"
proof -
  assume a: "0 <s x"
  then have p: "0 < sint x" by (simp add: word_sless_alt)
  have u: "sint x < 2 ^ 31" using sint_lt [of x] by simp
  have "sint (x - 1) = signed_take_bit 31 (sint x - 1)"
    by (simp add: sint_word_ariths)
  also have "\<dots> = sint x - 1"
    using p u by (intro signed_take_bit_int_eq_self) auto
  finally show ?thesis .
qed

lemma sint_pred_less: "0 <s (x :: u32) \<Longrightarrow> nat (sint (x - 1)) < nat (sint x)"
  by (simp add: sint_pred word_sless_alt)

lemma fragment_decreases:
  assumes "fragment (r, w, p, poff, left) = Inr s'" and "0 < left" and "0 <s remaining r"
  shows "px_measure s' < px_measure (r, w, p, poff, left)"
proof (cases "(word_of_int (int (pend r) - int (pcurrent r)) :: u32) > left")
  case True
  with assms(1) have "\<exists>r2 w2 p2 o2. s' = (r2, w2, p2, o2, 0) \<and> (remaining r2 = remaining r \<or> remaining r2 = remaining r - 1)"
    by (auto simp: fragment_def Let_def split: if_splits)
  then obtain r2 w2 p2 o2 where s': "s' = (r2, w2, p2, o2, 0)"
    and rr: "remaining r2 = remaining r \<or> remaining r2 = remaining r - 1" by blast
  from rr sint_pred_less [OF assms(3)] have "nat (sint (remaining r2)) \<le> nat (sint (remaining r))" by auto
  moreover from assms(2) have "0 < unat left" by (simp add: word_less_nat_alt)
  ultimately show ?thesis by (simp add: px_measure_def s')
next
  case False
  then have le: "(word_of_int (int (pend r) - int (pcurrent r)) :: u32) \<le> left" by simp
  from False assms(1) have "\<exists>r2 w2 p2 o2. s' = (r2, w2, p2, o2, left - word_of_int (int (pend r) - int (pcurrent r))) \<and> remaining r2 = remaining r - 1"
    by (auto simp: fragment_def Let_def split: if_splits)
  then obtain r2 w2 p2 o2 where s': "s' = (r2, w2, p2, o2, left - word_of_int (int (pend r) - int (pcurrent r)))"
    and rr: "remaining r2 = remaining r - 1" by blast
  from le have "unat (left - word_of_int (int (pend r) - int (pcurrent r))) \<le> unat left"
    by (simp add: unat_sub)
  moreover from rr sint_pred_less [OF assms(3)] have "nat (sint (remaining r2)) < nat (sint (remaining r))"
    by simp
  ultimately show ?thesis unfolding px_measure_def s' prod.case by linarith
qed

lemma row_done_decreases:
  assumes "row_done h direct p poff left (r, w, row, temp, bytes) = Inr s'"
    and "0 < left" and "0 <s remaining r"
  shows "px_measure s' < nat (sint (remaining r)) + unat left"
proof (cases "left \<ge> cupsBytesPerLine h (header r)")
  case True
  with assms(1) have "\<exists>r2 w2 p2 o2. s' = (r2, w2, p2, o2, left - cupsBytesPerLine h (header r)) \<and> remaining r2 = remaining r - 1"
    by (auto simp: row_done_def Let_def split: if_splits)
  then obtain r2 w2 p2 o2 where s': "s' = (r2, w2, p2, o2, left - cupsBytesPerLine h (header r))"
    and rr: "remaining r2 = remaining r - 1" by blast
  from True have "unat (left - cupsBytesPerLine h (header r)) \<le> unat left"
    by (simp add: unat_sub)
  moreover from rr sint_pred_less [OF assms(3)] have "nat (sint (remaining r2)) < nat (sint (remaining r))"
    by simp
  ultimately show ?thesis unfolding px_measure_def s' prod.case by linarith
next
  case False
  with assms(1) have "\<exists>r2 w2 p2 o2. s' = (r2, w2, p2, o2, 0) \<and> remaining r2 = remaining r"
    by (auto simp: row_done_def Let_def split: if_splits)
  then obtain r2 w2 p2 o2 where s': "s' = (r2, w2, p2, o2, 0)"
    and rr: "remaining r2 = remaining r" by blast
  from assms(2) have "0 < unat left" by (simp add: word_less_nat_alt)
  with rr show ?thesis by (simp add: px_measure_def s')
qed

lemma new_row_decreases:
  assumes "new_row h (r, w, p, poff, left) = Inr s'" and "0 < left" and "0 <s remaining r"
  shows "px_measure s' < px_measure (r, w, p, poff, left)"
proof -
  obtain n bs r1 w1 where rd: "cups_raster_read h r 1 w = (n, bs, r1, w1)"
    by (cases "cups_raster_read h r 1 w") auto
  from assms(1) obtain byte bs' where bs: "bs = byte # bs'" and n: "n \<noteq> 0"
    unfolding new_row_def prod.case rd
    by (cases bs) (simp_all split: if_splits)
  define r2 where "r2 = r1\<lparr>count := uint byte + 1\<rparr>"
  define direct where "direct = (left = cupsBytesPerLine h (header r) \<and> \<not> count r2 > 1)"
  define row where "row = (if direct then slice p poff (unat (cupsBytesPerLine h (header r))) else pixels r2)"
  define out where "out = unpack_loop h (r2, w1, row, 0, sint (cupsBytesPerLine h (header r)))"
  from assms(1) n have c: "(case out of
          Fault f \<Rightarrow> Inl (Fault f)
        | Fail (r3, w3, row', temp, bytes) \<Rightarrow>
            Inl (Fail (if direct then (r3, w3, store p poff row') else (r3\<lparr>pixels := row'\<rparr>, w3, p)))
        | Exit u \<Rightarrow> row_done h direct p poff left u) = Inr s'"
    unfolding new_row_def prod.case rd bs list.case Let_def
      r2_def [symmetric] direct_def [symmetric] row_def [symmetric] out_def [symmetric]
    by (simp only: if_False)
  then obtain u where ex0: "out = Exit u" and rdn0: "row_done h direct p poff left u = Inr s'"
    by (cases out) (auto split: prod.splits)
  obtain r3 w3 row3 temp3 bytes3 where u: "u = (r3, w3, row3, temp3, bytes3)" by (cases u) auto
  note ex = ex0 [unfolded u] and rdn = rdn0 [unfolded u]
  from unpack_loop_same [OF out_def [symmetric]] ex have "same_page r2 r3" by simp
  moreover from cups_raster_read_same [OF rd] have "same_page r r1" .
  ultimately have "remaining r3 = remaining r" by (simp add: same_page_def r2_def)
  with row_done_decreases [OF rdn assms(2)] assms(3) show ?thesis by (simp add: px_measure_def)
qed

function pixels_loop :: "raster_h \<Rightarrow> px_state \<Rightarrow> px_result outcome" where
  "pixels_loop h (r, w, p, poff, left) =
     (if left > 0 \<and> 0 <s remaining r then
        (case (if count r = 0 then new_row h (r, w, p, poff, left)
               else fragment (r, w, p, poff, left)) of
           Inl out \<Rightarrow> out
         | Inr s' \<Rightarrow> pixels_loop h s')
      else Exit (r, w, p))"
  by pat_completeness auto
termination
proof (relation "measure (\<lambda>(h, s). px_measure s)")
  show "wf (measure (\<lambda>(h, s). px_measure s))" by simp
next
  fix h :: raster_h and r :: cups_raster_t and w :: world and p :: "byte list"
    and poff :: nat and left :: u32 and s' :: px_state
  assume a: "0 < left \<and> 0 <s remaining r"
    "(if count r = 0 then new_row h (r, w, p, poff, left) else fragment (r, w, p, poff, left)) = Inr s'"
  then have "px_measure s' < px_measure (r, w, p, poff, left)"
    using new_row_decreases [of h r w p poff left s'] fragment_decreases [of r w p poff left s']
    by (auto split: if_splits)
  then show "((h, s'), (h, r, w, p, poff, left)) \<in> measure (\<lambda>(h, s). px_measure s)"
    by simp
qed

declare pixels_loop.simps [simp del]

definition cupsRasterReadPixels :: "raster_h \<Rightarrow> cups_raster_t option \<Rightarrow> byte list \<Rightarrow> u32 \<Rightarrow> world \<Rightarrow> fault + (u32 \<times> cups_raster_t option \<times> byte list \<times> world)" where
  "cupsRasterReadPixels h ro p len w =
     (case ro of
        None \<Rightarrow> Inr (0, None, p, w)
      | Some r \<Rightarrow>
          (if mode r \<noteq> CUPS_RASTER_READ \<or> remaining r = 0 then Inr (0, Some r, p, w)
           else if \<not> compressed r then
             (if cupsBytesPerLine h (header r) = 0 then Inl DivideByZero
              else
                (let r1 = r\<lparr>remaining := remaining r - len div cupsBytesPerLine h (header r)\<rparr>
                 in case cups_read w (sint len) of
                      (n, bs, w') \<Rightarrow>
                        (let p1 = store p 0 bs in
                         if n = 0 then Inr (0, Some r1, p1, w')
                         else Inr (len, Some r1,
                                   if swap_needed h r1 then cups_swap p1 (sint len) else p1, w'))))
           else
             (case pixels_loop h (r, w, p, 0, len) of
                Fault f \<Rightarrow> Inl f
              | Fail (r', w', p') \<Rightarrow> Inr (0, Some r', p', w')
              | Exit (r', w', p') \<Rightarrow> Inr (len, Some r', p', w'))))"


subsection \<open>The buffered reader as the specification words it\<close>

text \<open>
  The read buffer is in order when its cursor is not past its end, its end not past
  the storage, and \<^verbatim>\<open>bufsize\<close> is the size of the storage. \<^verbatim>\<open>cupsRasterOpen\<close> leaves
  it so and \<^verbatim>\<open>cups_raster_read\<close> keeps it so.
\<close>

definition buffer_ok :: "cups_raster_t \<Rightarrow> bool" where
  "buffer_ok r \<longleftrightarrow>
     bufptr r \<le> bufend r \<and> bufend r \<le> length (buffer r) \<and> int (length (buffer r)) = bufsize r"

text \<open>
  One round of the reader, written from section 4.2 of the specification and not
  from the code: with the buffer empty and fewer than 16 bytes outstanding, refill
  the whole buffer through \<^verbatim>\<open>cups_read\<close> and copy from it; with the buffer empty and
  16 bytes or more outstanding, read straight into the destination; otherwise copy
  the minimum of the outstanding and the buffered bytes; a read that returns 0 or
  less ends the call with 0. The state is that of \<open>raster_read_step\<close>.
\<close>

definition buffered_step :: "int \<Rightarrow> rr_state \<Rightarrow> rr_result + rr_state" where
  "buffered_step bytes s =
     (case s of (r, w, tot, left, buf) \<Rightarrow>
        (let outstanding = bytes - tot in
         if left = 0 \<and> outstanding < 16 then
           (case cups_read w (bufsize r) of
              (n, bs, w') \<Rightarrow>
                (if n \<le> 0 then Inl (0, buf, r\<lparr>buffer := store (buffer r) 0 bs\<rparr>, w')
                 else
                   (let k = min outstanding n in
                    Inr (r\<lparr>buffer := store (buffer r) 0 bs, bufptr := nat k, bufend := nat n\<rparr>,
                         w', tot + k, n - k,
                         buf @ slice (store (buffer r) 0 bs) 0 (nat k)))))
         else if left = 0 then
           (case cups_read w outstanding of
              (n, bs, w') \<Rightarrow>
                (if n \<le> 0 then Inl (0, buf @ bs, r, w')
                 else Inr (r, w', tot + n, left, buf @ bs)))
         else
           (let k = min outstanding left in
            Inr (r\<lparr>bufptr := bufptr r + nat k\<rparr>, w, tot + k, left - k,
                 buf @ slice (buffer r) (bufptr r) (nat k)))))"

text \<open>The invariant of the loop: the buffer in order, \<open>left\<close> the bytes buffered,
  and \<open>tot\<close> bytes stored, no more than asked for.\<close>

definition rr_inv :: "int \<Rightarrow> rr_state \<Rightarrow> bool" where
  "rr_inv bytes s \<longleftrightarrow>
     (case s of (r, w, tot, left, buf) \<Rightarrow>
        buffer_ok r \<and> left = int (bufend r) - int (bufptr r) \<and> tot \<le> bytes \<and>
        int (length buf) = tot)"

text \<open>
  The loop of section 4.2 over that round, from any state: it goes on while bytes are
  outstanding, and a round that ends the call gives the call's result.
\<close>

lemma buffered_step_decreases:
  assumes "buffered_step bytes (r, w, tot, left, buf) = Inr (r', w', tot', left', buf')"
    and "tot < bytes"
  shows "(left < 0 \<and> left' = 0) \<or> (0 \<le> left \<and> 0 \<le> left' \<and> tot < tot')"
proof (cases "left = 0")
  case False
  with assms show ?thesis by (auto simp: buffered_step_def Let_def min_def split: if_splits)
next
  case True
  show ?thesis
  proof (cases "bytes - tot < 16")
    case False
    obtain n bs w1 where rd: "cups_read w (bytes - tot) = (n, bs, w1)"
      by (cases "cups_read w (bytes - tot)") auto
    with True False assms show ?thesis
      by (auto simp: buffered_step_def Let_def split: if_splits)
  next
    case small: True
    obtain n bs w1 where rd: "cups_read w (bufsize r) = (n, bs, w1)"
      by (cases "cups_read w (bufsize r)") auto
    with True small assms show ?thesis
      by (auto simp: buffered_step_def Let_def min_def split: if_splits)
  qed
qed

function buffered_loop :: "int \<Rightarrow> rr_state \<Rightarrow> rr_result" where
  "buffered_loop bytes (r, w, tot, left, buf) =
     (if tot < bytes then
        (case buffered_step bytes (r, w, tot, left, buf) of
           Inl res \<Rightarrow> res
         | Inr s' \<Rightarrow> buffered_loop bytes s')
      else (tot, buf, r, w))"
  by pat_completeness auto

termination buffered_loop
proof (relation "measures [\<lambda>(bytes, r, w, tot, left, buf). if left < 0 then 1 else 0,
                           \<lambda>(bytes, r, w, tot, left, buf). nat (bytes - tot)]")
  show "wf (measures [\<lambda>(bytes, r, w, tot, left, buf). if left < 0 then 1 else (0::nat),
                      \<lambda>(bytes, r, w, tot, left, buf). nat (bytes - tot)])"
    by simp
next
  fix bytes :: int and r :: cups_raster_t and w :: world and tot left :: int
    and buf :: "byte list" and s' :: rr_state
  assume a: "tot < bytes" "buffered_step bytes (r, w, tot, left, buf) = Inr s'"
  obtain r' w' tot' left' buf' where s': "s' = (r', w', tot', left', buf')"
    by (cases s') auto
  from buffered_step_decreases [of bytes r w tot left buf r' w' tot' left' buf'] a s'
  show "((bytes, s'), (bytes, r, w, tot, left, buf))
        \<in> measures [\<lambda>(bytes, r, w, tot, left, buf). if left < 0 then 1 else 0,
                     \<lambda>(bytes, r, w, tot, left, buf). nat (bytes - tot)]"
    by auto
qed

declare buffered_loop.simps [simp del]

subsection \<open>The row decoder as the specification words it\<close>

text \<open>
  The bytes the read buffer holds and has not served yet, and the condition under
  which \<^verbatim>\<open>cups_raster_read\<close> serves from the buffer as it is: the stream is
  compressed, its buffer is in order and no smaller than two rows.
\<close>

definition pending :: "cups_raster_t \<Rightarrow> byte list" where
  "pending r = slice (buffer r) (bufptr r) (bufend r - bufptr r)"

definition serving :: "raster_h \<Rightarrow> cups_raster_t \<Rightarrow> bool" where
  "serving h r \<longleftrightarrow>
     compressed r \<and> buffer_ok r \<and> sint (2 * cupsBytesPerLine h (header r)) \<le> bufsize r"

text \<open>
  The data of one row, written from section 4.3 of the specification and not from
  the code. \<open>B\<close> is the number of bytes to the pixel, \<open>budget\<close> the bytes of the row
  still to produce and \<open>wire\<close> the input; the result is the output and the number
  of input bytes used. An opcode \<open>b\<close> with the high bit set copies
  \<open>(257 - b) * B\<close> bytes, clamped to the budget, from the input. An opcode with the
  high bit clear reads \<open>B\<close> bytes as a pel and emits it \<open>b + 1\<close> times, clamped to
  the budget; if the clamped length is less than \<open>B\<close>, the decoding of the row
  stops there. The result is \<open>None\<close> where the input ends too early, where a run
  has no length, and where a clamped repeat run is not a whole number of pels.
\<close>

function packbits_row :: "nat \<Rightarrow> nat \<Rightarrow> byte list \<Rightarrow> (byte list \<times> nat) option" where
  "packbits_row B budget wire =
     (if budget = 0 then Some ([], 0)
      else
        (case wire of
           [] \<Rightarrow> None
         | b # rest \<Rightarrow>
             (if b AND 128 \<noteq> 0 then
                (let n = min ((257 - unat b) * B) budget in
                 if n = 0 \<or> length rest < n then None
                 else (case packbits_row B (budget - n) (drop n rest) of
                         None \<Rightarrow> None
                       | Some (out, used) \<Rightarrow> Some (take n rest @ out, 1 + n + used)))
              else
                (let n = min ((unat b + 1) * B) budget in
                 if n < B then Some ([], 1)
                 else if B = 0 \<or> length rest < B \<or> \<not> B dvd n then None
                 else (case packbits_row B (budget - n) (drop B rest) of
                         None \<Rightarrow> None
                       | Some (out, used) \<Rightarrow>
                           Some (take n (concat (replicate (unat b + 1) (take B rest))) @ out,
                                 1 + B + used))))))"
  by pat_completeness auto
termination
  by (relation "measure (\<lambda>(B, budget, wire). budget)") auto

declare packbits_row.simps [simp del]


subsection \<open>An example host\<close>

text \<open>
  The layout and the values of the \<^verbatim>\<open>raster.h\<close> that CUPS 1.2 shipped, on a
  little-endian host and on a big-endian one. The theorems below hold for every
  \<open>raster_h\<close>; these two instantiate them.
\<close>

definition cspace_1_2 :: "u32 \<Rightarrow> cups_cspace_t option" where
  "cspace_1_2 = map_of
     [(0, CUPS_CSPACE_W), (1, CUPS_CSPACE_RGB), (2, CUPS_CSPACE_RGBA), (3, CUPS_CSPACE_K),
      (4, CUPS_CSPACE_CMY), (5, CUPS_CSPACE_YMC), (6, CUPS_CSPACE_CMYK), (7, CUPS_CSPACE_YMCK),
      (8, CUPS_CSPACE_KCMY), (9, CUPS_CSPACE_KCMYcm), (10, CUPS_CSPACE_GMCK),
      (11, CUPS_CSPACE_GMCS), (12, CUPS_CSPACE_WHITE), (13, CUPS_CSPACE_GOLD),
      (14, CUPS_CSPACE_SILVER), (15, CUPS_CSPACE_CIEXYZ), (16, CUPS_CSPACE_CIELab),
      (17, CUPS_CSPACE_RGBW), (32, CUPS_CSPACE_ICC1), (33, CUPS_CSPACE_ICC2),
      (34, CUPS_CSPACE_ICC3), (35, CUPS_CSPACE_ICC4), (36, CUPS_CSPACE_ICC5),
      (37, CUPS_CSPACE_ICC6), (38, CUPS_CSPACE_ICC7), (39, CUPS_CSPACE_ICC8),
      (40, CUPS_CSPACE_ICC9), (41, CUPS_CSPACE_ICCA), (42, CUPS_CSPACE_ICCB),
      (43, CUPS_CSPACE_ICCC), (44, CUPS_CSPACE_ICCD), (45, CUPS_CSPACE_ICCE),
      (46, CUPS_CSPACE_ICCF)]"

definition cups_le :: raster_h where
  "cups_le =
     \<lparr>CUPS_RASTER_SYNC = 0x52615333, CUPS_RASTER_REVSYNC = 0x33536152,
      CUPS_RASTER_SYNCv1 = 0x52615374, CUPS_RASTER_REVSYNCv1 = 0x74536152,
      CUPS_RASTER_SYNCv2 = 0x52615332, CUPS_RASTER_REVSYNCv2 = 0x32536152,
      CUPS_ORDER_CHUNKED = 0, CUPS_ORDER_PLANAR = 2,
      cspace_of = cspace_1_2,
      sizeof_header = 420, sizeof_header2 = 1796,
      at_AdvanceDistance = 256, at_cupsHeight = 376, at_cupsBitsPerColor = 384,
      at_cupsBitsPerPixel = 388, at_cupsBytesPerLine = 392, at_cupsColorOrder = 396,
      at_cupsColorSpace = 400, at_cupsNumColors = 420,
      big_endian = False\<rparr>"

definition cups_be :: raster_h where
  "cups_be = cups_le\<lparr>big_endian := True\<rparr>"

text \<open>A descriptor that delivers two bytes, is interrupted, and delivers three more.\<close>

definition w_ex :: world where
  "w_ex = \<lparr>input = [Chunk [1, 2], Error EINTR, Chunk [3, 4, 5]], wscript = [],
            written = [], heap = []\<rparr>"

text \<open>A descriptor that holds the bytes \<open>bs\<close> and nothing more.\<close>

definition w_sync :: "byte list \<Rightarrow> world" where
  "w_sync bs = \<lparr>input = [Chunk bs], wscript = [], written = [], heap = []\<rparr>"

text \<open>
  A page header for four-byte rows, three of them, eight bits to the pixel, in the
  colour space K; an uncompressed stream on that page; a descriptor that fails for
  good after two bytes, and one that ends after two bytes.
\<close>

definition hdr_ex :: "byte list" where
  "hdr_ex = put32 cups_le (put32 cups_le (put32 cups_le (put32 cups_le (put32 cups_le
              (replicate 1796 0) 376 3) 384 8) 388 8) 392 4) 400 3"

definition reader_ex :: cups_raster_t where
  "reader_ex = (calloc_raster cups_le 3 CUPS_RASTER_READ)
                 \<lparr>sync := CUPS_RASTER_SYNC cups_le, header := hdr_ex, bpp := 1, remaining := 3\<rparr>"

definition w_eio :: world where
  "w_eio = \<lparr>input = [Chunk [1, 2], Error EIO, Chunk [3, 4, 5]], wscript = [WError EIO],
             written = [], heap = []\<rparr>"

definition w_eof :: world where
  "w_eof = \<lparr>input = [Chunk [1, 2]], wscript = [Accept 2, WError EIO], written = [], heap = []\<rparr>"

text \<open>
  A write stream, a world in which every write and every allocation succeeds, and a
  V2 header that declares \<open>2\<^sup>3\<^sup>2 - 1\<close> bits to the pixel and one colour.
\<close>

definition writer_ex :: cups_raster_t where
  "writer_ex = (calloc_raster cups_le 4 CUPS_RASTER_WRITE)\<lparr>sync := CUPS_RASTER_SYNC cups_le\<rparr>"

definition w_ok :: world where
  "w_ok = \<lparr>input = [], wscript = [], written = [], heap = []\<rparr>"

definition hdr_wide :: "byte list" where
  "hdr_wide = put32 cups_le (put32 cups_le hdr_ex 388 0xFFFFFFFF) 420 1"

text \<open>
  A compressed stream as the header read leaves it on the page \<open>hdr_ex\<close>: rows of
  four bytes, one byte to the pixel, three rows to come, nothing buffered yet.
\<close>

definition packed_ex :: cups_raster_t where
  "packed_ex = cups_raster_update cups_le
     ((calloc_raster cups_le 3 CUPS_RASTER_READ)
        \<lparr>sync := CUPS_RASTER_SYNCv2 cups_le, header := hdr_ex, compressed := True\<rparr>)"

text \<open>
  The same stream after its first byte has been read from a descriptor that holds
  \<open>02 03 aa 00 03 bb 07 07\<close>: the eight bytes are in the buffer, the cursor is
  past the first.
\<close>

definition packed_mid :: cups_raster_t where
  "packed_mid = packed_ex\<lparr>buffer := [2, 3, 0xaa, 0, 3, 0xbb, 7, 7], bufptr := 1, bufend := 8,
                           bufsize := 8\<rparr>"

text \<open>A V1 stream just opened, uncompressed and not swapped.\<close>

definition v1_ex :: cups_raster_t where
  "v1_ex = (calloc_raster cups_le 3 CUPS_RASTER_READ)\<lparr>sync := CUPS_RASTER_SYNCv1 cups_le\<rparr>"

text \<open>
  A page of 16-bit pixels, four bytes to the row, on a compressed stream whose sync
  word came in reversed byte order; and that stream after its first byte has been
  read from a descriptor that holds \<open>00 01 11 22\<close> and five bytes more.
\<close>

definition hdr16 :: "byte list" where
  "hdr16 = put32 cups_le (put32 cups_le hdr_ex 384 16) 388 16"

definition swapped16_ex :: cups_raster_t where
  "swapped16_ex = cups_raster_update cups_le
     ((calloc_raster cups_le 3 CUPS_RASTER_READ)
        \<lparr>sync := CUPS_RASTER_REVSYNCv2 cups_le, header := hdr16, compressed := True,
          swapped := True\<rparr>)"

definition swapped16_mid :: cups_raster_t where
  "swapped16_mid = swapped16_ex\<lparr>buffer := [0, 1, 0x11, 0x22, 9, 9, 9, 9], bufptr := 1,
                                 bufend := 8, bufsize := 8\<rparr>"

text \<open>
  A page whose header gives rows of three bytes to pixels of two, a header a file
  can carry; a compressed stream on it; and that stream after its first byte has
  been read from a descriptor that holds \<open>00 00 01 02 00 09\<close> and more.
\<close>

definition hdr_odd :: "byte list" where
  "hdr_odd = put32 cups_le hdr16 392 3"

definition odd_ex :: cups_raster_t where
  "odd_ex = cups_raster_update cups_le
     ((calloc_raster cups_le 3 CUPS_RASTER_READ)
        \<lparr>sync := CUPS_RASTER_SYNCv2 cups_le, header := hdr_odd, compressed := True\<rparr>)"


section \<open>Properties\<close>

subsection \<open>Bytes and words\<close>

lemma le32_bytes:
  "ucast (le32 a b c d) = a"
  "ucast (drop_bit 8 (le32 a b c d)) = b"
  "ucast (drop_bit 16 (le32 a b c d)) = c"
  "ucast (drop_bit 24 (le32 a b c d)) = d"
  unfolding le32_def
  by (rule bit_word_eqI; auto simp: bit_simps dest: bit_imp_le_length)+

lemma mem_of_le32:
  "mem_of_u32 be (le32 b0 b1 b2 b3) = (if be then [b3, b2, b1, b0] else [b0, b1, b2, b3])"
  by (simp add: mem_of_u32_def le32_bytes)

lemma le32_of_bytes:
  "le32 (ucast v) (ucast (drop_bit 8 v)) (ucast (drop_bit 16 v)) (ucast (drop_bit 24 v)) = (v :: u32)"
  unfolding le32_def
proof (rule bit_word_eqI)
  fix n assume "n < LENGTH(32)"
  then have n: "n < 32" by simp
  consider "n < 8" | "8 \<le> n" "n < 16" | "16 \<le> n" "n < 24" | "24 \<le> n"
    by linarith
  then show "bit (push_bit 8 (push_bit 8 (push_bit 8 (ucast (ucast (drop_bit 24 v) :: byte)) OR
                 ucast (ucast (drop_bit 16 v) :: byte)) OR ucast (ucast (drop_bit 8 v) :: byte)) OR
                 ucast (ucast v :: byte) :: u32) n = bit v n"
    using n by cases (auto simp: bit_simps)
qed

lemma u32_of_mem_of_u32: "u32_of_mem be (mem_of_u32 be v @ rest) = v"
  by (cases be) (simp_all add: u32_of_mem_def mem_of_u32_def le32_of_bytes)

lemma swap_pairs_twice: "swap_pairs n (swap_pairs n buf) = buf"
  by (induction n buf rule: swap_pairs.induct) auto

lemma swap_words_Nil [simp]: "swap_words be n [] = []"
  by (cases n) simp_all

lemma swap_words_length: "length (swap_words be n mem) = length mem"
  by (induction be n mem rule: swap_words.induct) (auto simp: mem_of_le32)

lemma swap_words_twice: "swap_words be n (swap_words be n mem) = mem"
  by (induction be n mem rule: swap_words.induct) (auto simp: mem_of_le32)

lemma swap_header_twice: "swap_header h (swap_header h hdr) = hdr"
proof (cases "at_AdvanceDistance h \<le> length hdr")
  case True
  then show ?thesis by (simp add: swap_header_def swap_words_twice)
next
  case False
  then show ?thesis by (simp add: swap_header_def)
qed


lemma cups_read_loop_result:
  "cups_read_loop bytes (tot, buf, es) = (n, bs, es') \<Longrightarrow> tot \<le> bytes \<Longrightarrow>
   int (length buf) = tot \<Longrightarrow>
   n = 0 \<or> n = - 1 \<or> (n = bytes \<and> int (length bs) = bytes)"
proof (induction bytes "(tot, buf, es)" arbitrary: tot buf es rule: cups_read_loop.induct)
  case (1 bytes tot buf es)
  show ?case
  proof (cases "tot < bytes")
    case False
    with "1.prems" show ?thesis by (simp add: cups_read_loop.simps)
  next
    case True
    obtain res es1 where sr: "sys_read es (nat (bytes - tot)) = (res, es1)"
      by (cases "sys_read es (nat (bytes - tot))") auto
    show ?thesis
    proof (cases "cups_read_step bytes (tot, buf, es)")
      case (Inl out)
      with True "1.prems"(1) have "out = (n, bs, es')" by (simp add: cups_read_loop.simps)
      with Inl sr show ?thesis
        by (auto simp: cups_read_step_def Let_def split: sum.splits if_splits)
    next
      case (Inr s')
      obtain tot1 buf1 es2 where s': "s' = (tot1, buf1, es2)" by (cases s') auto
      from Inr s' sr sys_read_length [of es "nat (bytes - tot)" _ es1] True "1.prems"(3)
      have "tot1 \<le> bytes" "int (length buf1) = tot1"
        by (auto simp: cups_read_step_def Let_def split: sum.splits if_splits)
      moreover from True Inr s' "1.prems"(1) have "cups_read_loop bytes (tot1, buf1, es2) = (n, bs, es')"
        by (simp add: cups_read_loop.simps)
      ultimately show ?thesis
        using "1.hyps" [OF True Inr [unfolded s']] by simp
    qed
  qed
qed

subsection \<open>The byte-I/O read primitive\<close>

text \<open>
  Claim C8. \<^verbatim>\<open>cups_read\<close> returns only 0, the requested length or -1, and when it
  returns the requested length it has stored that many bytes. While bytes are still
  owed (\<open>tot < bytes\<close>), the loop returns 0 at end of file and on a read of 0 bytes,
  whatever \<open>tot\<close> has been reached; takes the bytes of a read and goes on, or
  stops with the full length; goes round again with \<open>tot\<close> unchanged when the read
  fails with \<open>EINTR\<close>; and returns -1 when it fails with any other error.
\<close>

theorem cups_read_returns:
  "(case cups_read w bytes of
      (n, bs, w') \<Rightarrow>
        (n = 0 \<or> n = bytes \<or> n = - 1) \<and> (n = bytes \<longrightarrow> 0 \<le> bytes \<longrightarrow> int (length bs) = bytes))
   \<and> (tot < bytes \<longrightarrow>
        cups_read_loop bytes (tot, buf, []) = (0, buf, [])
      \<and> cups_read_loop bytes (tot, buf, Chunk [] # es) = (0, buf, es)
      \<and> (cs \<noteq> [] \<longrightarrow>
           cups_read_loop bytes (tot, buf, Chunk cs # es) =
             (if int (length cs) \<le> bytes - tot
              then cups_read_loop bytes (tot + int (length cs), buf @ cs, es)
              else (bytes, buf @ take (nat (bytes - tot)) cs, Chunk (drop (nat (bytes - tot)) cs) # es)))
      \<and> cups_read_loop bytes (tot, buf, Error EINTR # es) = cups_read_loop bytes (tot, buf, es)
      \<and> (e \<noteq> EINTR \<longrightarrow> cups_read_loop bytes (tot, buf, Error e # es) = (- 1, buf, es)))"
proof (intro conjI impI)
  show "case cups_read w bytes of
      (n, bs, w') \<Rightarrow>
        (n = 0 \<or> n = bytes \<or> n = - 1) \<and> (n = bytes \<longrightarrow> 0 \<le> bytes \<longrightarrow> int (length bs) = bytes)"
  proof (cases "0 < bytes")
    case False
    then show ?thesis by (simp add: cups_read_nonpos)
  next
    case True
    obtain n bs es' where l: "cups_read_loop bytes (0, [], input w) = (n, bs, es')"
      by (cases "cups_read_loop bytes (0, [], input w)") auto
    from cups_read_loop_result [OF l] True show ?thesis
      by (auto simp: cups_read_def l)
  qed
next
  assume "tot < bytes"
  then show "cups_read_loop bytes (tot, buf, []) = (0, buf, [])"
    by (simp add: cups_read_loop.simps cups_read_step_def)
next
  assume "tot < bytes"
  then show "cups_read_loop bytes (tot, buf, Chunk [] # es) = (0, buf, es)"
    by (simp add: cups_read_loop.simps cups_read_step_def)
next
  assume t: "tot < bytes" and c: "cs \<noteq> []"
  show "cups_read_loop bytes (tot, buf, Chunk cs # es) =
             (if int (length cs) \<le> bytes - tot
              then cups_read_loop bytes (tot + int (length cs), buf @ cs, es)
              else (bytes, buf @ take (nat (bytes - tot)) cs, Chunk (drop (nat (bytes - tot)) cs) # es))"
  proof (cases "int (length cs) \<le> bytes - tot")
    case True
    then have "length cs \<le> nat (bytes - tot)" by linarith
    with True t c show ?thesis
      by (simp add: cups_read_loop.simps [of bytes tot buf] cups_read_step_def Let_def)
  next
    case False
    with t have m: "min (length cs) (nat (bytes - tot)) = nat (bytes - tot)"
      and l: "\<not> length cs \<le> nat (bytes - tot)" by auto
    from False t c have "cups_read_loop bytes (tot, buf, Chunk cs # es)
        = cups_read_loop bytes (bytes, buf @ take (nat (bytes - tot)) cs, Chunk (drop (nat (bytes - tot)) cs) # es)"
      by (simp add: cups_read_loop.simps [of bytes tot buf] cups_read_step_def Let_def m l)
    with False show ?thesis by (simp add: cups_read_loop.simps [of bytes bytes])
  qed
next
  assume "tot < bytes"
  then show "cups_read_loop bytes (tot, buf, Error EINTR # es) = cups_read_loop bytes (tot, buf, es)"
    by (simp add: cups_read_loop.simps [of bytes tot buf "Error EINTR # es"] cups_read_step_def)
next
  assume "tot < bytes" "e \<noteq> EINTR"
  then show "cups_read_loop bytes (tot, buf, Error e # es) = (- 1, buf, es)"
    by (simp add: cups_read_loop.simps cups_read_step_def)
qed

theorem cups_read_returns_witness:
  "(2 :: int) < 4 \<and> [3, 4, 5 :: byte] \<noteq> [] \<and> EIO \<noteq> EINTR \<and>
   cups_read w_ex 4 = (4, [1, 2, 3, 4], w_ex\<lparr>input := [Chunk [5]]\<rparr>) \<and>
   cups_read_loop 4 (2, [1, 2], [Chunk [3, 4, 5]]) = (4, [1, 2, 3, 4], [Chunk [5]]) \<and>
   cups_read_loop 4 (2, [1, 2], []) = (0, [1, 2], []) \<and>
   cups_read_loop 4 (2, [1, 2], [Error EIO, Chunk [3, 4, 5]]) = (- 1, [1, 2], [Chunk [3, 4, 5]])"
  using cups_read_returns [where w = w_ex and bytes = 4 and tot = 2 and buf = "[1, 2]"
      and es = "[]" and cs = "[3, 4, 5]" and e = EIO]
    cups_read_returns [where w = w_ex and bytes = 4 and tot = 2 and buf = "[1, 2]"
      and es = "[Chunk [3, 4, 5]]" and cs = "[3, 4, 5]" and e = EIO]
  by (simp add: w_ex_def cups_read_def cups_read_loop.simps cups_read_step_def)

subsection \<open>The two byte swaps\<close>

text \<open>
  Claim C9. Both swaps are involutions: the swap of the 81 header words from
  \<^verbatim>\<open>AdvanceDistance\<close> on, applied twice, gives the header back, and so does
  \<^verbatim>\<open>cups_swap\<close>, applied twice with the same length, for every buffer and every
  length. (On a little-endian host the header swap changes nothing, which is an
  involution too; on a big-endian host it reverses each word.)
\<close>

theorem swaps_involutive:
  "swap_header h (swap_header h hdr) = hdr \<and> cups_swap (cups_swap buf bytes) bytes = buf"
  by (simp add: swap_header_twice cups_swap_def swap_pairs_twice)

theorem swaps_involutive_witness:
  "swap_header (cups_be\<lparr>at_AdvanceDistance := 2\<rparr>) [9, 8, 1, 2, 3, 4, 5, 6, 7] = [9, 8, 4, 3, 2, 1, 5, 6, 7] \<and>
   swap_header (cups_be\<lparr>at_AdvanceDistance := 2\<rparr>) [9, 8, 4, 3, 2, 1, 5, 6, 7] = [9, 8, 1, 2, 3, 4, 5, 6, 7] \<and>
   cups_swap [1, 2, 3, 4, 5] 5 = [2, 1, 4, 3, 5] \<and>
   cups_swap [2, 1, 4, 3, 5] 5 = [1, 2, 3, 4, 5]"
  using swaps_involutive [where h = "cups_be\<lparr>at_AdvanceDistance := 2\<rparr>"
      and hdr = "[9, 8, 1, 2, 3, 4, 5, 6, 7]" and buf = "[1, 2, 3, 4, 5]" and bytes = 5]
  by code_simp

subsection \<open>Evaluating the examples\<close>

lemma le32_zero [simp]: "le32 0 0 0 0 = 0"
  by (simp add: le32_def)

lemma four_le: "4 \<le> n \<Longrightarrow> \<exists>m. n = Suc (Suc (Suc (Suc m)))"
  by (induction n) (auto simp: le_Suc_eq eval_nat_numeral)

lemma u32_of_mem_zeros_app: "4 \<le> n \<Longrightarrow> u32_of_mem be (replicate n 0 @ xs) = 0"
  using four_le [of n] by (auto simp: u32_of_mem_def)

lemma u32_of_mem_zeros: "u32_of_mem be (replicate n 0) = 0"
proof (cases "4 \<le> n")
  case True
  from u32_of_mem_zeros_app [OF this, of be "[]"] show ?thesis by simp
next
  case False
  then consider "n = 0" | "n = Suc 0" | "n = Suc (Suc 0)" | "n = Suc (Suc (Suc 0))" by linarith
  then show ?thesis by cases (simp_all add: u32_of_mem_def)
qed


declare u32_of_mem_zeros [simp] u32_of_mem_zeros_app [simp]

lemma hdr_ex_fields:
  "cupsBytesPerLine cups_le hdr_ex = 4"
  "cupsHeight cups_le hdr_ex = 3"
  "cupsBitsPerColor cups_le hdr_ex = 8"
  "cupsBitsPerPixel cups_le hdr_ex = 8"
  "cupsColorOrder cups_le hdr_ex = 0"
  "cupsColorSpace cups_le hdr_ex = 3"
  "cupsNumColors cups_le hdr_ex = 0"
  by (simp_all add: hdr_ex_def cups_le_def cupsBytesPerLine_def cupsHeight_def cupsBitsPerColor_def
      cupsBitsPerPixel_def cupsColorOrder_def cupsColorSpace_def cupsNumColors_def
      get32_def put32_def store_def mem_of_u32_def)
     (simp_all add: u32_of_mem_def le32_def)

lemma reader_ex_simps:
  "mode reader_ex = CUPS_RASTER_READ" "\<not> compressed reader_ex" "remaining reader_ex = 3"
  "header reader_ex = hdr_ex" "\<not> swapped reader_ex"
  by (simp_all add: reader_ex_def calloc_raster_def)

subsection \<open>Opening a stream for reading\<close>

lemma cups_read_full:
  assumes "cups_read w bytes = (bytes, bs, w')" and "0 \<le> bytes"
  shows "int (length bs) = bytes"
proof (cases "0 < bytes")
  case False
  with assms show ?thesis by (simp add: cups_read_nonpos)
next
  case True
  obtain n cs es' where l: "cups_read_loop bytes (0, [], input w) = (n, cs, es')"
    by (cases "cups_read_loop bytes (0, [], input w)") auto
  with assms have "n = bytes" "cs = bs" by (simp_all add: cups_read_def)
  with cups_read_loop_result [OF l] True show ?thesis by auto
qed

lemma store_whole: "length bs = length mem \<Longrightarrow> store mem 0 bs = bs"
  by (simp add: store_def)

text \<open>
  Claim C3. Let the four bytes \<open>bs\<close> of the first word be read (the stream record
  having been allocated), and let \<open>v\<close> be their value as a host \<^verbatim>\<open>unsigned\<close>. If
  \<open>v\<close> is one of the six sync constants, \<^verbatim>\<open>cupsRasterOpen\<close> returns a stream whose
  \<^verbatim>\<open>compressed\<close> flag is set exactly when \<open>v\<close> is \<^verbatim>\<open>SYNCv2\<close> or \<^verbatim>\<open>REVSYNCv2\<close> and
  whose \<^verbatim>\<open>swapped\<close> flag is set exactly when \<open>v\<close> is \<^verbatim>\<open>REVSYNC\<close>, \<^verbatim>\<open>REVSYNCv1\<close> or
  \<^verbatim>\<open>REVSYNCv2\<close>; for any other \<open>v\<close> it returns no stream.
\<close>

theorem open_read_sync:
  assumes "alloc w = (True, w0)" and "cups_read w0 4 = (4, bs, w1)"
  shows "let v = u32_of_mem (big_endian h) bs in
         if v = CUPS_RASTER_SYNC h \<or> v = CUPS_RASTER_REVSYNC h \<or>
            v = CUPS_RASTER_SYNCv1 h \<or> v = CUPS_RASTER_REVSYNCv1 h \<or>
            v = CUPS_RASTER_SYNCv2 h \<or> v = CUPS_RASTER_REVSYNCv2 h
         then \<exists>r. cupsRasterOpen h d CUPS_RASTER_READ w = (Some r, w1) \<and>
                  sync r = v \<and> mode r = CUPS_RASTER_READ \<and>
                  (compressed r \<longleftrightarrow> v = CUPS_RASTER_SYNCv2 h \<or> v = CUPS_RASTER_REVSYNCv2 h) \<and>
                  (swapped r \<longleftrightarrow> v = CUPS_RASTER_REVSYNC h \<or> v = CUPS_RASTER_REVSYNCv1 h \<or>
                                 v = CUPS_RASTER_REVSYNCv2 h)
         else cupsRasterOpen h d CUPS_RASTER_READ w = (None, w1)"
proof -
  from cups_read_full [OF assms(2)] have "length bs = 4" by simp
  then have st: "store [0, 0, 0, 0] 0 bs = bs" by (simp add: store_whole)
  define v where "v = u32_of_mem (big_endian h) bs"
  define r0 where "r0 = calloc_raster h d CUPS_RASTER_READ\<lparr>sync := v\<rparr>"
  have s0: "sync r0 = v" "mode r0 = CUPS_RASTER_READ" "\<not> compressed r0" "\<not> swapped r0"
    by (simp_all add: r0_def calloc_raster_def)
  have "cupsRasterOpen h d CUPS_RASTER_READ w =
          (if v \<noteq> CUPS_RASTER_SYNC h \<and> v \<noteq> CUPS_RASTER_REVSYNC h \<and>
              v \<noteq> CUPS_RASTER_SYNCv1 h \<and> v \<noteq> CUPS_RASTER_REVSYNCv1 h \<and>
              v \<noteq> CUPS_RASTER_SYNCv2 h \<and> v \<noteq> CUPS_RASTER_REVSYNCv2 h
           then (None, w1)
           else (Some ((if v = CUPS_RASTER_SYNCv2 h \<or> v = CUPS_RASTER_REVSYNCv2 h
                        then r0\<lparr>compressed := True\<rparr> else r0)
                       \<lparr>swapped := (v = CUPS_RASTER_REVSYNC h \<or> v = CUPS_RASTER_REVSYNCv1 h \<or>
                                   v = CUPS_RASTER_REVSYNCv2 h)\<rparr>), w1))"
    unfolding cupsRasterOpen_def Let_def assms prod.case bool.case st
      v_def [symmetric] r0_def [symmetric]
    using s0 by simp
  then show ?thesis
    unfolding Let_def v_def [symmetric] using s0 by (simp split: if_splits)
qed

lemma w_sync_read:
  "cups_read (w_sync [0x52, 0x61, 0x53, 0x32, 7]) 4 = (4, [0x52, 0x61, 0x53, 0x32], w_sync [7])"
  "cups_read (w_sync [0x32, 0x53, 0x61, 0x52, 7]) 4 = (4, [0x32, 0x53, 0x61, 0x52], w_sync [7])"
  "cups_read (w_sync [0x53, 0x61, 0x52, 0x32, 7]) 4 = (4, [0x53, 0x61, 0x52, 0x32], w_sync [7])"
  by (simp_all add: w_sync_def cups_read_def cups_read_loop.simps cups_read_step_def)

lemma w_sync_alloc: "alloc (w_sync bs) = (True, w_sync bs)"
  by (simp add: alloc_def w_sync_def)

lemma sync_values:
  "u32_of_mem False [0x52, 0x61, 0x53, 0x32] = 0x32536152"
  "u32_of_mem False [0x32, 0x53, 0x61, 0x52] = 0x52615332"
  "u32_of_mem False [0x53, 0x61, 0x52, 0x32] = 0x32526153"
  by (simp_all add: u32_of_mem_def le32_def)

theorem open_read_sync_witness:
  "alloc (w_sync [0x52, 0x61, 0x53, 0x32, 7]) = (True, w_sync [0x52, 0x61, 0x53, 0x32, 7]) \<and>
   cups_read (w_sync [0x52, 0x61, 0x53, 0x32, 7]) 4 = (4, [0x52, 0x61, 0x53, 0x32], w_sync [7]) \<and>
   (\<exists>r. cupsRasterOpen cups_le 3 CUPS_RASTER_READ (w_sync [0x52, 0x61, 0x53, 0x32, 7]) = (Some r, w_sync [7]) \<and>
        sync r = CUPS_RASTER_REVSYNCv2 cups_le \<and> compressed r \<and> swapped r) \<and>
   (\<exists>r. cupsRasterOpen cups_le 3 CUPS_RASTER_READ (w_sync [0x32, 0x53, 0x61, 0x52, 7]) = (Some r, w_sync [7]) \<and>
        sync r = CUPS_RASTER_SYNCv2 cups_le \<and> compressed r \<and> \<not> swapped r) \<and>
   cupsRasterOpen cups_le 3 CUPS_RASTER_READ (w_sync [0x53, 0x61, 0x52, 0x32, 7]) = (None, w_sync [7])"
  using open_read_sync [OF w_sync_alloc w_sync_read(1), of cups_le 3]
    open_read_sync [OF w_sync_alloc w_sync_read(2), of cups_le 3]
    open_read_sync [OF w_sync_alloc w_sync_read(3), of cups_le 3]
  by (auto simp: sync_values cups_le_def w_sync_alloc w_sync_read)

subsection \<open>Uncompressed pixels\<close>

text \<open>
  Claim C5, where the code departs from it. On an uncompressed read stream with rows
  remaining, when \<^verbatim>\<open>cups_read\<close> fails with -1 (a permanent error of the
  descriptor), \<^verbatim>\<open>cupsRasterReadPixels\<close> returns \<open>len\<close>, not 0: the test
  \<^verbatim>\<open>!cups_read(...)\<close> only catches a result of 0.
\<close>

theorem read_pixels_io_error:
  assumes "mode r = CUPS_RASTER_READ" and "\<not> compressed r" and "remaining r \<noteq> 0"
    and "cupsBytesPerLine h (header r) \<noteq> 0"
    and "cups_read w (sint len) = (- 1, bs, w')"
  shows "\<exists>p'. cupsRasterReadPixels h (Some r) p len w =
           Inr (len, Some (r\<lparr>remaining := remaining r - len div cupsBytesPerLine h (header r)\<rparr>), p', w')"
  using assms by (simp add: cupsRasterReadPixels_def Let_def)

lemma w_eio_read: "cups_read w_eio 4 = (- 1, [1, 2], w_eio\<lparr>input := [Chunk [3, 4, 5]]\<rparr>)"
  by (simp add: w_eio_def cups_read_def cups_read_loop.simps cups_read_step_def)

theorem read_pixels_io_error_witness:
  "cupsRasterReadPixels cups_le (Some reader_ex) [0, 0, 0, 0] 4 w_eio =
     Inr (4, Some (reader_ex\<lparr>remaining := 2\<rparr>), [1, 2, 0, 0], w_eio\<lparr>input := [Chunk [3, 4, 5]]\<rparr>)"
  using read_pixels_io_error [where h = cups_le and r = reader_ex and w = w_eio and len = 4
      and bs = "[1, 2]" and w' = "w_eio\<lparr>input := [Chunk [3, 4, 5]]\<rparr>" and p = "[0, 0, 0, 0]"]
  by (simp add: cupsRasterReadPixels_def Let_def reader_ex_simps hdr_ex_fields w_eio_read
      swap_needed_def store_def)

text \<open>
  Claim C10. On an uncompressed read stream and on a write stream, with rows
  remaining, the pixel call leaves \<^verbatim>\<open>remaining\<close> decremented by
  \<^verbatim>\<open>len / cupsBytesPerLine\<close> (in the 32-bit arithmetic of the code) whatever the
  descriptor then does: the stream returned carries the decrement for every result
  \<open>n\<close> of \<^verbatim>\<open>cups_read\<close> or \<^verbatim>\<open>cups_write\<close>, the failures included, and a read that
  obtains nothing returns 0 with the rows already consumed.
\<close>

theorem pixel_transfer_consumes_rows:
  "(mode r = CUPS_RASTER_READ \<and> \<not> compressed r \<and> remaining r \<noteq> 0 \<and>
    cupsBytesPerLine h (header r) \<noteq> 0 \<longrightarrow>
      (case cups_read w (sint len) of
         (n, bs, w') \<Rightarrow>
           \<exists>res p'. cupsRasterReadPixels h (Some r) p len w =
             Inr (res, Some (r\<lparr>remaining := remaining r - len div cupsBytesPerLine h (header r)\<rparr>),
                  p', w') \<and> (n = 0 \<longrightarrow> res = 0)))
   \<and> (mode r = CUPS_RASTER_WRITE \<and> remaining r \<noteq> 0 \<and> cupsBytesPerLine h (header r) \<noteq> 0 \<longrightarrow>
      (case cups_write w p (sint len) of
         (n, w') \<Rightarrow>
           cupsRasterWritePixels h (Some r) p len w =
             Inr (word_of_int n,
                  Some (r\<lparr>remaining := remaining r - len div cupsBytesPerLine h (header r)\<rparr>), w')))"
  by (auto simp: cupsRasterReadPixels_def cupsRasterWritePixels_def Let_def split: prod.splits)

lemma w_eof_read: "cups_read w_eof 8 = (0, [1, 2], w_eof\<lparr>input := []\<rparr>)"
  by (simp add: w_eof_def cups_read_def cups_read_loop.simps cups_read_step_def)

lemma w_eof_write: "cups_write w_eof [1, 2, 3, 4, 5, 6, 7, 8] 8 = (- 1, w_eof\<lparr>wscript := [], written := [1, 2]\<rparr>)"
  by (simp add: w_eof_def cups_write_def cups_write_loop.simps cups_write_step_def slice_def)

theorem pixel_transfer_consumes_rows_witness:
  "cupsRasterReadPixels cups_le (Some reader_ex) [0, 0, 0, 0, 0, 0, 0, 0] 8 w_eof =
     Inr (0, Some (reader_ex\<lparr>remaining := 1\<rparr>), [1, 2, 0, 0, 0, 0, 0, 0], w_eof\<lparr>input := []\<rparr>) \<and>
   cupsRasterWritePixels cups_le (Some (reader_ex\<lparr>mode := CUPS_RASTER_WRITE\<rparr>)) [1, 2, 3, 4, 5, 6, 7, 8] 8 w_eof =
     Inr (0xFFFFFFFF, Some (reader_ex\<lparr>mode := CUPS_RASTER_WRITE, remaining := 1\<rparr>),
          w_eof\<lparr>wscript := [], written := [1, 2]\<rparr>)"
  using pixel_transfer_consumes_rows [where h = cups_le and r = reader_ex and w = w_eof
      and len = 8 and p = "[0, 0, 0, 0, 0, 0, 0, 0]"]
    pixel_transfer_consumes_rows [where h = cups_le and r = "reader_ex\<lparr>mode := CUPS_RASTER_WRITE\<rparr>"
      and w = w_eof and len = 8 and p = "[1, 2, 3, 4, 5, 6, 7, 8]"]
  by (simp add: cupsRasterReadPixels_def cupsRasterWritePixels_def Let_def reader_ex_simps
      hdr_ex_fields w_eof_read w_eof_write swap_needed_def store_def)

subsection \<open>Header fields in memory\<close>

lemma cups_le_simps:
  "CUPS_RASTER_SYNC cups_le = 0x52615333" "CUPS_RASTER_REVSYNC cups_le = 0x33536152"
  "CUPS_RASTER_SYNCv1 cups_le = 0x52615374" "CUPS_RASTER_REVSYNCv1 cups_le = 0x74536152"
  "CUPS_RASTER_SYNCv2 cups_le = 0x52615332" "CUPS_RASTER_REVSYNCv2 cups_le = 0x32536152"
  "CUPS_ORDER_CHUNKED cups_le = 0" "CUPS_ORDER_PLANAR cups_le = 2"
  "cspace_of cups_le = cspace_1_2"
  "sizeof_header cups_le = 420" "sizeof_header2 cups_le = 1796"
  "at_AdvanceDistance cups_le = 256" "at_cupsHeight cups_le = 376"
  "at_cupsBitsPerColor cups_le = 384" "at_cupsBitsPerPixel cups_le = 388"
  "at_cupsBytesPerLine cups_le = 392" "at_cupsColorOrder cups_le = 396"
  "at_cupsColorSpace cups_le = 400" "at_cupsNumColors cups_le = 420"
  "big_endian cups_le = False"
  by (simp_all add: cups_le_def)




lemma length_mem_of_u32 [simp]: "length (mem_of_u32 be v) = 4"
  by (simp add: mem_of_u32_def Let_def)

lemma length_store: "off + length bs \<le> length mem \<Longrightarrow> length (store mem off bs) = length mem"
  by (simp add: store_def)

lemma length_put32 [simp]: "off + 4 \<le> length hdr \<Longrightarrow> length (put32 h hdr off v) = length hdr"
  by (simp add: put32_def length_store)

lemma get32_put32_same [simp]:
  "off \<le> length hdr \<Longrightarrow> get32 h (put32 h hdr off v) off = v"
  by (simp add: get32_def put32_def store_def u32_of_mem_of_u32)

lemma drop_store_before:
  "off + length bs \<le> off' \<Longrightarrow> off + length bs \<le> length mem \<Longrightarrow> drop off' (store mem off bs) = drop off' mem"
  by (simp add: store_def)

lemma take4_store_after:
  assumes "off' + 4 \<le> off" and "off \<le> length mem"
  shows "take 4 (drop off' (store mem off bs)) = take 4 (drop off' mem)"
proof -
  from assms have l: "off' \<le> length (take off mem)" by simp
  have "drop off' (store mem off bs) = drop off' (take off mem) @ bs @ drop (off + length bs) mem"
    unfolding store_def using l by simp
  moreover from assms have "4 \<le> length (drop off' (take off mem))" by simp
  ultimately have "take 4 (drop off' (store mem off bs)) = take 4 (drop off' (take off mem))"
    by simp
  also have "\<dots> = take 4 (take (off - off') (drop off' mem))" by (simp add: drop_take)
  also have "\<dots> = take 4 (drop off' mem)" using assms by (simp add: min_def)
  finally show ?thesis .
qed

lemma u32_of_mem_take4: "u32_of_mem be mem = u32_of_mem be (take 4 mem)"
proof (cases mem)
  case Nil then show ?thesis by simp
next
  case (Cons a m1)
  show ?thesis
  proof (cases m1)
    case Nil with Cons show ?thesis by (simp add: u32_of_mem_def)
  next
    case (Cons b m2)
    note c2 = this
    show ?thesis
    proof (cases m2)
      case Nil with c2 \<open>mem = a # m1\<close> show ?thesis by (simp add: u32_of_mem_def)
    next
      case (Cons c m3)
      with c2 \<open>mem = a # m1\<close> show ?thesis
        by (cases m3) (simp_all add: u32_of_mem_def)
    qed
  qed
qed

lemma get32_put32_other [simp]:
  assumes "off + 4 \<le> off' \<or> off' + 4 \<le> off" and "off + 4 \<le> length hdr"
  shows "get32 h (put32 h hdr off v) off' = get32 h hdr off'"
proof -
  from assms(1) show ?thesis
  proof
    assume "off + 4 \<le> off'"
    with assms(2) show ?thesis
      by (simp add: get32_def put32_def drop_store_before)
  next
    assume a: "off' + 4 \<le> off"
    have "get32 h (put32 h hdr off v) off' = u32_of_mem (big_endian h) (take 4 (drop off' (put32 h hdr off v)))"
      unfolding get32_def by (rule u32_of_mem_take4)
    also have "take 4 (drop off' (put32 h hdr off v)) = take 4 (drop off' hdr)"
      unfolding put32_def using a assms(2) by (intro take4_store_after) simp_all
    also have "u32_of_mem (big_endian h) (take 4 (drop off' hdr)) = get32 h hdr off'"
      unfolding get32_def by (rule u32_of_mem_take4 [symmetric])
    finally show ?thesis .
  qed
qed

lemma get32_zeros [simp]: "get32 h (replicate n 0) off = 0"
  by (simp add: get32_def)

lemma hdr_lengths: "length hdr_ex = 1796" "length hdr_wide = 1796"
  by (simp_all add: hdr_ex_def hdr_wide_def)

lemma hdr_wide_fields:
  "cupsBitsPerPixel cups_le hdr_wide = 0xFFFFFFFF"
  "cupsColorOrder cups_le hdr_wide = 0"
  "cupsNumColors cups_le hdr_wide = 1"
  by (simp_all add: hdr_wide_def hdr_ex_def cups_le_simps cupsBitsPerPixel_def cupsColorOrder_def
      cupsNumColors_def)

lemma writer_ex_simps:
  "mode writer_ex = CUPS_RASTER_WRITE" "header writer_ex = replicate 1796 0"
  "sync writer_ex = 0x52615333" "\<not> compressed writer_ex"
  by (simp_all add: writer_ex_def calloc_raster_def cups_le_simps)

subsection \<open>The derived fields\<close>

lemma update_fields:
  "remaining (cups_raster_update h r) =
     (if cupsColorOrder h (header (cups_raster_update h r)) = CUPS_ORDER_PLANAR h
      then cupsHeight h (header (cups_raster_update h r)) * cupsNumColors h (header (cups_raster_update h r))
      else cupsHeight h (header (cups_raster_update h r)))"
  "bpp (cups_raster_update h r) =
     uint (((if cupsColorOrder h (header (cups_raster_update h r)) = CUPS_ORDER_CHUNKED h
             then cupsBitsPerPixel h (header (cups_raster_update h r))
             else cupsBitsPerColor h (header (cups_raster_update h r))) + 7) div 8)"
  by (simp_all add: cups_raster_update_def Let_def)

lemma read_header_updates:
  assumes "cups_raster_read_header h ro w = (1, Some r', w')"
  shows "\<exists>r. r' = cups_raster_update h r"
proof (cases ro)
  case None
  with assms show ?thesis by (simp add: cups_raster_read_header_def)
next
  case (Some r)
  show ?thesis
  proof (cases "mode r = CUPS_RASTER_READ")
    case False
    with Some assms show ?thesis by (simp add: cups_raster_read_header_def)
  next
    case True
    define len where "len = (if sync r = CUPS_RASTER_SYNCv1 h \<or> sync r = CUPS_RASTER_REVSYNCv1 h
                             then int (sizeof_header h) else int (sizeof_header2 h))"
    obtain n bs r2 w2 where rd: "cups_raster_read h (r\<lparr>header := replicate (sizeof_header2 h) 0\<rparr>) len w = (n, bs, r2, w2)"
      by (cases "cups_raster_read h (r\<lparr>header := replicate (sizeof_header2 h) 0\<rparr>) len w") auto
    from assms show ?thesis
      unfolding cups_raster_read_header_def Some option.case Let_def len_def [symmetric] rd prod.case
      using True by (auto split: if_splits)
  qed
qed

lemma write_header_updates:
  assumes "cupsRasterWriteHeader h ro hone w = (ok, Some r', w') \<or>
           cupsRasterWriteHeader2 h ro htwo w = (ok, Some r', w')" and "ok \<noteq> 0"
  shows "\<exists>r. r' = cups_raster_update h r"
proof (cases ro)
  case None
  with assms show ?thesis by (simp add: cupsRasterWriteHeader_def cupsRasterWriteHeader2_def)
next
  case (Some r)
  show ?thesis
  proof (cases "mode r = CUPS_RASTER_WRITE")
    case False
    with Some assms show ?thesis by (simp add: cupsRasterWriteHeader_def cupsRasterWriteHeader2_def)
  next
    case True
    from assms(1) show ?thesis
    proof
      assume a: "cupsRasterWriteHeader h ro hone w = (ok, Some r', w')"
      then show ?thesis
        unfolding cupsRasterWriteHeader_def Some option.case Let_def
        using True by (simp split: prod.splits) blast
    next
      assume a: "cupsRasterWriteHeader2 h ro htwo w = (ok, Some r', w')"
      then show ?thesis
        unfolding cupsRasterWriteHeader2_def Some option.case Let_def
        using True by (simp split: prod.splits) blast
    qed
  qed
qed

lemma ceil8: "\<lceil>real n / 8\<rceil> = (int n + 7) div 8"
proof -
  have "\<lceil>real n / 8\<rceil> = \<lceil>of_int (int n) / (of_int 8 :: real)\<rceil>" by simp
  also have "\<dots> = - (- int n div 8)" by (rule ceiling_divide_eq_div)
  also have "\<dots> = (int n + 7) div 8" by linarith
  finally show ?thesis .
qed

lemma uint_ceil8:
  assumes "unat (x :: u32) + 7 < 2 ^ 32"
  shows "uint ((x + 7) div 8) = \<lceil>real (unat x) / 8\<rceil>"
proof -
  have "unat x + unat (7 :: u32) < 2 ^ LENGTH(32)" using assms by simp
  then have "unat (x + 7) = unat x + unat (7 :: u32)" by (simp only: unat_add_lem)
  then have a: "unat (x + 7) = unat x + 7" by simp
  have "uint ((x + 7) div 8) = uint (x + 7) div uint (8 :: u32)" by (rule uint_div)
  also have "\<dots> = int (unat (x + 7)) div 8" by simp
  also have "\<dots> = (int (unat x) + 7) div 8" by (simp only: a)
  finally show ?thesis by (simp only: ceil8)
qed

lemma sint_small: "sint x = int (unat x)" if "unat x < 2 ^ 31" for x :: u32
proof -
  have u: "uint x = int (unat x)" by (rule uint_nat)
  from that have "int (unat x) < int (2 ^ 31)" by (simp only: of_nat_less_iff)
  then have a: "uint x < 2 ^ 31" by simp
  have "- (2 ^ 31) \<le> (0 :: int)" by simp
  also have "0 \<le> uint x" by simp
  finally have b: "- (2 ^ 31) \<le> uint x" .
  have "sint x = signed_take_bit (LENGTH(32) - Suc 0) (uint x)" by (rule sint_uint)
  also have "\<dots> = signed_take_bit 31 (uint x)" by simp
  also have "\<dots> = uint x" by (rule signed_take_bit_int_eq_self [OF b a])
  also note u
  finally show ?thesis .
qed

lemma cups_write_all:
  assumes "wscript w = []" and "0 < bytes"
  shows "cups_write w buf bytes = (bytes, w\<lparr>written := written w @ slice buf 0 (nat bytes)\<rparr>)"
proof -
  have "cups_write_loop buf bytes (0, [], written w) =
        cups_write_loop buf bytes (bytes, [], written w @ slice buf 0 (nat bytes))"
    using assms(2) by (simp add: cups_write_loop.simps [of buf bytes 0] cups_write_step_def)
  also have "\<dots> = (bytes, [], written w @ slice buf 0 (nat bytes))"
    by (simp add: cups_write_loop.simps)
  finally show ?thesis using assms(1) by (simp add: cups_write_def)
qed

lemma update_header_length:
  "at_cupsNumColors h + 4 \<le> length (header r) \<Longrightarrow>
   length (header (cups_raster_update h r)) = length (header r)"
  by (simp add: cups_raster_update_def Let_def split: option.splits)

lemma write_header2_ok:
  assumes "length htwo = 1796"
  shows "cupsRasterWriteHeader2 cups_le (Some writer_ex) htwo w_ok =
           (1, Some (cups_raster_update cups_le (writer_ex\<lparr>header := htwo\<rparr>)),
            w_ok\<lparr>written := header (cups_raster_update cups_le (writer_ex\<lparr>header := htwo\<rparr>))\<rparr>)"
proof -
  have st: "store (header writer_ex) 0 (slice htwo 0 (sizeof_header2 cups_le)) = htwo"
    using assms by (simp add: cups_le_simps writer_ex_simps store_def slice_def)
  have len: "length (header (cups_raster_update cups_le (writer_ex\<lparr>header := htwo\<rparr>))) = 1796"
    using assms by (simp add: update_header_length cups_le_simps)
  have "cups_write w_ok buf 1796 = (1796, w_ok\<lparr>written := written w_ok @ slice buf 0 (nat 1796)\<rparr>)" for buf
    by (rule cups_write_all) (simp_all add: w_ok_def)
  then have wr: "cups_write w_ok buf 1796 = (1796, w_ok\<lparr>written := take 1796 buf\<rparr>)" for buf
    by (simp add: w_ok_def slice_def)
  show ?thesis
    unfolding cupsRasterWriteHeader2_def option.case Let_def st
    using len by (simp add: writer_ex_simps cups_le_simps wr)
qed

lemma hdr_wide_update:
  "header (cups_raster_update cups_le (writer_ex\<lparr>header := hdr_wide\<rparr>)) = hdr_wide"
  by (simp add: cups_raster_update_def Let_def writer_ex_simps hdr_wide_fields cups_le_simps)

text \<open>
  Claim C6 as stated fails where the 32-bit sum wraps: a V2 header with
  \<^verbatim>\<open>cupsBitsPerPixel\<close> \<open>= 2\<^sup>3\<^sup>2 - 1\<close> in chunked order is written with success, and
  \<^verbatim>\<open>bpp\<close> is 0, not the ceiling 536870912 of an eighth of it.
\<close>

theorem header_derived_fields_counterexample:
  "\<exists>r' w'. cupsRasterWriteHeader2 cups_le (Some writer_ex) hdr_wide w_ok = (1, Some r', w') \<and>
           cupsColorOrder cups_le (header r') = CUPS_ORDER_CHUNKED cups_le \<and>
           cupsBitsPerPixel cups_le (header r') = 0xFFFFFFFF \<and>
           bpp r' = 0 \<and>
           \<lceil>real (unat (cupsBitsPerPixel cups_le (header r'))) / 8\<rceil> = 536870912"
proof -
  let ?r = "cups_raster_update cups_le (writer_ex\<lparr>header := hdr_wide\<rparr>)"
  have "bpp ?r = 0"
    by (simp add: update_fields(2) hdr_wide_update hdr_wide_fields cups_le_simps)
  moreover have "\<lceil>real (unat (0xFFFFFFFF :: u32)) / 8\<rceil> = 536870912"
    by (simp add: ceil8)
  ultimately show ?thesis
    using write_header2_ok [OF hdr_lengths(2)]
    by (simp add: hdr_wide_update hdr_wide_fields cups_le_simps)
qed

text \<open>
  Claim C6, amended. After a header read or write that returns 1, \<^verbatim>\<open>remaining\<close> is
  the 32-bit product \<^verbatim>\<open>cupsHeight * cupsNumColors\<close> when the colour order is PLANAR
  and \<^verbatim>\<open>cupsHeight\<close> otherwise, and \<^verbatim>\<open>bpp\<close> is \<^verbatim>\<open>(bits + 7) / 8\<close> in 32-bit
  unsigned arithmetic, \<open>bits\<close> being \<^verbatim>\<open>cupsBitsPerPixel\<close> when the order is CHUNKED
  and \<^verbatim>\<open>cupsBitsPerColor\<close> otherwise, all read from the header the stream then holds.
  \<^verbatim>\<open>bpp\<close> is the ceiling of \<open>bits / 8\<close> whenever \<open>bits + 7\<close> is below \<open>2\<^sup>3\<^sup>2\<close>, and
  \<^verbatim>\<open>remaining\<close>, an \<^verbatim>\<open>int\<close>, is the product (or the height) itself whenever that is
  below \<open>2\<^sup>3\<^sup>1\<close>.
\<close>

theorem header_derived_fields:
  assumes "cups_raster_read_header h ro w = (1, Some r', w') \<or>
           cupsRasterWriteHeader h ro hone w = (1, Some r', w') \<or>
           cupsRasterWriteHeader2 h ro htwo w = (1, Some r', w')"
  shows "remaining r' =
           (if cupsColorOrder h (header r') = CUPS_ORDER_PLANAR h
            then cupsHeight h (header r') * cupsNumColors h (header r')
            else cupsHeight h (header r')) \<and>
         bpp r' =
           uint (((if cupsColorOrder h (header r') = CUPS_ORDER_CHUNKED h
                   then cupsBitsPerPixel h (header r') else cupsBitsPerColor h (header r')) + 7) div 8) \<and>
         (cupsColorOrder h (header r') = CUPS_ORDER_CHUNKED h \<and>
          unat (cupsBitsPerPixel h (header r')) + 7 < 2 ^ 32 \<longrightarrow>
            bpp r' = \<lceil>real (unat (cupsBitsPerPixel h (header r'))) / 8\<rceil>) \<and>
         (cupsColorOrder h (header r') \<noteq> CUPS_ORDER_CHUNKED h \<and>
          unat (cupsBitsPerColor h (header r')) + 7 < 2 ^ 32 \<longrightarrow>
            bpp r' = \<lceil>real (unat (cupsBitsPerColor h (header r'))) / 8\<rceil>) \<and>
         (cupsColorOrder h (header r') = CUPS_ORDER_PLANAR h \<and>
          unat (cupsHeight h (header r')) * unat (cupsNumColors h (header r')) < 2 ^ 31 \<longrightarrow>
            sint (remaining r') = int (unat (cupsHeight h (header r')) * unat (cupsNumColors h (header r')))) \<and>
         (cupsColorOrder h (header r') \<noteq> CUPS_ORDER_PLANAR h \<and>
          unat (cupsHeight h (header r')) < 2 ^ 31 \<longrightarrow>
            sint (remaining r') = int (unat (cupsHeight h (header r'))))"
proof -
  from assms obtain r where r': "r' = cups_raster_update h r"
    using read_header_updates [of h ro w r' w']
      write_header_updates [of h ro hone w 1 r' w' htwo] by auto
  have rem: "remaining r' =
           (if cupsColorOrder h (header r') = CUPS_ORDER_PLANAR h
            then cupsHeight h (header r') * cupsNumColors h (header r')
            else cupsHeight h (header r'))"
    unfolding r' by (rule update_fields(1))
  have bp: "bpp r' =
           uint (((if cupsColorOrder h (header r') = CUPS_ORDER_CHUNKED h
                   then cupsBitsPerPixel h (header r') else cupsBitsPerColor h (header r')) + 7) div 8)"
    unfolding r' by (rule update_fields(2))
  note small = sint_small
  have prod: "unat (a * b) = unat a * unat b" if "unat a * unat b < 2 ^ 31" for a b :: u32
  proof -
    from that have "unat a * unat b < 2 ^ LENGTH(32)" by simp
    then show ?thesis by (simp only: unat_mult_lem)
  qed
  show ?thesis
  proof (intro conjI impI)
    show "remaining r' =
           (if cupsColorOrder h (header r') = CUPS_ORDER_PLANAR h
            then cupsHeight h (header r') * cupsNumColors h (header r')
            else cupsHeight h (header r'))" by (rule rem)
    show "bpp r' =
           uint (((if cupsColorOrder h (header r') = CUPS_ORDER_CHUNKED h
                   then cupsBitsPerPixel h (header r') else cupsBitsPerColor h (header r')) + 7) div 8)"
      by (rule bp)
  next
    assume "cupsColorOrder h (header r') = CUPS_ORDER_CHUNKED h \<and>
          unat (cupsBitsPerPixel h (header r')) + 7 < 2 ^ 32"
    then show "bpp r' = \<lceil>real (unat (cupsBitsPerPixel h (header r'))) / 8\<rceil>"
      using bp uint_ceil8 by simp
  next
    assume "cupsColorOrder h (header r') \<noteq> CUPS_ORDER_CHUNKED h \<and>
          unat (cupsBitsPerColor h (header r')) + 7 < 2 ^ 32"
    then show "bpp r' = \<lceil>real (unat (cupsBitsPerColor h (header r'))) / 8\<rceil>"
      using bp uint_ceil8 by simp
  next
    assume a: "cupsColorOrder h (header r') = CUPS_ORDER_PLANAR h \<and>
          unat (cupsHeight h (header r')) * unat (cupsNumColors h (header r')) < 2 ^ 31"
    then have "unat (remaining r') = unat (cupsHeight h (header r')) * unat (cupsNumColors h (header r'))"
      using rem prod by simp
    with a small [of "remaining r'"]
    show "sint (remaining r') = int (unat (cupsHeight h (header r')) * unat (cupsNumColors h (header r')))"
      by simp
  next
    assume a: "cupsColorOrder h (header r') \<noteq> CUPS_ORDER_PLANAR h \<and>
          unat (cupsHeight h (header r')) < 2 ^ 31"
    with rem small [of "remaining r'"]
    show "sint (remaining r') = int (unat (cupsHeight h (header r')))" by simp
  qed
qed

theorem header_derived_fields_witness:
  "cupsRasterWriteHeader2 cups_le (Some writer_ex) hdr_ex w_ok =
     (1, Some (cups_raster_update cups_le (writer_ex\<lparr>header := hdr_ex\<rparr>)),
      w_ok\<lparr>written := put32 cups_le hdr_ex 420 1\<rparr>) \<and>
   header (cups_raster_update cups_le (writer_ex\<lparr>header := hdr_ex\<rparr>)) = put32 cups_le hdr_ex 420 1 \<and>
   remaining (cups_raster_update cups_le (writer_ex\<lparr>header := hdr_ex\<rparr>)) = 3 \<and>
   bpp (cups_raster_update cups_le (writer_ex\<lparr>header := hdr_ex\<rparr>)) = 1"
proof -
  let ?R = "cups_raster_update cups_le (writer_ex\<lparr>header := hdr_ex\<rparr>)"
  have w: "cupsRasterWriteHeader2 cups_le (Some writer_ex) hdr_ex w_ok =
             (1, Some ?R, w_ok\<lparr>written := header ?R\<rparr>)"
    by (rule write_header2_ok [OF hdr_lengths(1)])
  have hd: "header ?R = put32 cups_le hdr_ex 420 1"
    by (simp add: cups_raster_update_def Let_def writer_ex_simps hdr_ex_fields cups_le_simps
        cspace_1_2_def)
  have f: "cupsColorOrder cups_le (put32 cups_le hdr_ex 420 1) = 0"
    "cupsHeight cups_le (put32 cups_le hdr_ex 420 1) = 3"
    "cupsBitsPerPixel cups_le (put32 cups_le hdr_ex 420 1) = 8"
    by (simp_all add: cupsColorOrder_def cupsHeight_def cupsBitsPerPixel_def cups_le_simps hdr_ex_def)
  from header_derived_fields [where h = cups_le and ro = "Some writer_ex" and htwo = hdr_ex
      and w = w_ok and r' = ?R and w' = "w_ok\<lparr>written := header ?R\<rparr>", OF disjI2 [OF disjI2 [OF w]]]
  have "remaining ?R = 3 \<and> bpp ?R = 1"
    unfolding hd by (simp add: f cups_le_simps)
  with w hd show ?thesis by simp
qed

subsection \<open>The buffered reader\<close>

lemma raster_copy_min:
  assumes "0 < left" and "0 < want"
  shows "raster_copy want (r, w, tot, left, buf) =
           (r\<lparr>bufptr := bufptr r + nat (min want left)\<rparr>, w, tot + min want left,
            left - min want left, buf @ slice (buffer r) (bufptr r) (nat (min want left)))"
proof -
  define k where "k = min want left"
  have k: "k = (if want > left then left else want)" "0 < k" using assms by (auto simp: k_def)
  show ?thesis
    unfolding raster_copy_def prod.case Let_def k(1) [symmetric] k_def [symmetric]
    using k(2) by (cases "k = 1") simp_all
qed

lemma raster_read_step_refines:
  assumes "0 \<le> left" and "tot < bytes"
  shows "raster_read_step bytes (r, w, tot, left, buf) = buffered_step bytes (r, w, tot, left, buf)"
proof (cases "left = 0")
  case False
  with assms have "0 < left" "0 < bytes - tot" by simp_all
  from raster_copy_min [OF this] False show ?thesis
    by (simp add: raster_read_step_def buffered_step_def Let_def)
next
  case True
  show ?thesis
  proof (cases "bytes - tot < 16")
    case False
    with True show ?thesis by (simp add: raster_read_step_def buffered_step_def Let_def)
  next
    case small: True
    obtain n bs w1 where rd: "cups_read w (bufsize r) = (n, bs, w1)"
      by (cases "cups_read w (bufsize r)") auto
    show ?thesis
    proof (cases "n \<le> 0")
      case True
      with \<open>left = 0\<close> small rd show ?thesis
        by (simp add: raster_read_step_def buffered_step_def Let_def)
    next
      case False
      then have "0 < n" by simp
      from raster_copy_min [OF this, of "bytes - tot"] assms(2)
      have "raster_copy (bytes - tot)
              (r\<lparr>buffer := store (buffer r) 0 bs, bufptr := 0, bufend := nat n\<rparr>, w1, tot, n, buf) =
            (r\<lparr>buffer := store (buffer r) 0 bs, bufptr := nat (min (bytes - tot) n), bufend := nat n\<rparr>,
             w1, tot + min (bytes - tot) n, n - min (bytes - tot) n,
             buf @ slice (store (buffer r) 0 bs) 0 (nat (min (bytes - tot) n)))"
        by simp
      with \<open>left = 0\<close> small rd False show ?thesis
        by (simp add: raster_read_step_def buffered_step_def Let_def)
    qed
  qed
qed

lemma raster_copy_neg:
  assumes "left < 0" and "0 < want"
  shows "raster_copy want (r, w, tot, left, buf) =
           (r\<lparr>bufptr := bufptr r + nat (min want left)\<rparr>, w, tot + min want left,
            left - min want left, buf @ slice (buffer r) (bufptr r) (nat (min want left)))"
proof -
  from assms have m: "min want left = left" "want > left" by simp_all
  show ?thesis
    unfolding raster_copy_def prod.case Let_def m
    using assms by simp
qed

lemma raster_read_step_spec:
  assumes "tot < bytes"
  shows "raster_read_step bytes (r, w, tot, left, buf) = buffered_step bytes (r, w, tot, left, buf)"
proof (cases "0 \<le> left")
  case True
  then show ?thesis using assms by (rule raster_read_step_refines)
next
  case False
  then have l: "left < 0" "left \<noteq> 0" by simp_all
  from assms have "0 < bytes - tot" by simp
  from raster_copy_neg [OF l(1) this] l(2) show ?thesis
    by (simp add: raster_read_step_def buffered_step_def Let_def)
qed

lemma raster_read_loop_spec:
  "raster_read_loop bytes (r, w, tot, left, buf) = buffered_loop bytes (r, w, tot, left, buf)"
proof (induction bytes "(r, w, tot, left, buf)" arbitrary: r w tot left buf
    rule: raster_read_loop.induct)
  case (1 bytes r w tot left buf)
  show ?case
  proof (cases "tot < bytes")
    case False
    then show ?thesis
      by (simp add: raster_read_loop.simps [of bytes r w tot left buf]
          buffered_loop.simps [of bytes r w tot left buf])
  next
    case True
    note ref = raster_read_step_spec [OF True, of r w left buf]
    show ?thesis
    proof (cases "raster_read_step bytes (r, w, tot, left, buf)")
      case (Inl res)
      with ref have b: "buffered_step bytes (r, w, tot, left, buf) = Inl res" by simp
      show ?thesis
        by (simp add: raster_read_loop.simps [of bytes r w tot left buf]
            buffered_loop.simps [of bytes r w tot left buf] True Inl b)
    next
      case (Inr s')
      obtain r1 w1 tot1 left1 buf1 where s': "s' = (r1, w1, tot1, left1, buf1)" by (cases s') auto
      from "1.hyps" [OF True Inr [unfolded s']]
      have "raster_read_loop bytes s' = buffered_loop bytes s'" by (simp add: s')
      moreover from Inr ref have "buffered_step bytes (r, w, tot, left, buf) = Inr s'" by simp
      ultimately show ?thesis
        by (simp add: raster_read_loop.simps [of bytes r w tot left buf]
            buffered_loop.simps [of bytes r w tot left buf] True Inr)
    qed
  qed
qed

lemma cups_read_loop_length:
  "cups_read_loop bytes (tot, buf, es) = (n, bs, es') \<Longrightarrow> tot \<le> bytes \<Longrightarrow>
   int (length buf) = tot \<Longrightarrow> int (length bs) \<le> bytes"
proof (induction bytes "(tot, buf, es)" arbitrary: tot buf es rule: cups_read_loop.induct)
  case (1 bytes tot buf es)
  show ?case
  proof (cases "tot < bytes")
    case False
    with "1.prems" show ?thesis by (simp add: cups_read_loop.simps)
  next
    case True
    obtain res es1 where sr: "sys_read es (nat (bytes - tot)) = (res, es1)"
      by (cases "sys_read es (nat (bytes - tot))") auto
    show ?thesis
    proof (cases "cups_read_step bytes (tot, buf, es)")
      case (Inl out)
      with True "1.prems"(1) have "out = (n, bs, es')" by (simp add: cups_read_loop.simps)
      with Inl sr "1.prems"(2,3) show ?thesis
        by (auto simp: cups_read_step_def Let_def split: sum.splits if_splits)
    next
      case (Inr s')
      obtain tot1 buf1 es2 where s': "s' = (tot1, buf1, es2)" by (cases s') auto
      from Inr s' sr sys_read_length [of es "nat (bytes - tot)" _ es1] True "1.prems"(3)
      have "tot1 \<le> bytes" "int (length buf1) = tot1"
        by (auto simp: cups_read_step_def Let_def split: sum.splits if_splits)
      moreover from True Inr s' "1.prems"(1) have "cups_read_loop bytes (tot1, buf1, es2) = (n, bs, es')"
        by (simp add: cups_read_loop.simps)
      ultimately show ?thesis
        using "1.hyps" [OF True Inr [unfolded s']] by simp
    qed
  qed
qed

lemma cups_read_length:
  assumes "cups_read w bytes = (n, bs, w')"
  shows "int (length bs) \<le> max bytes 0" and "0 < n \<Longrightarrow> n = bytes \<and> int (length bs) = bytes"
proof -
  show "int (length bs) \<le> max bytes 0"
  proof (cases "0 < bytes")
    case False
    with assms show ?thesis by (simp add: cups_read_nonpos)
  next
    case True
    obtain m cs es' where l: "cups_read_loop bytes (0, [], input w) = (m, cs, es')"
      by (cases "cups_read_loop bytes (0, [], input w)") auto
    with assms have "cs = bs" by (simp add: cups_read_def)
    with cups_read_loop_length [OF l] True show ?thesis by simp
  qed
next
  assume p: "0 < n"
  show "n = bytes \<and> int (length bs) = bytes"
  proof (cases "0 < bytes")
    case False
    with assms p show ?thesis by (simp add: cups_read_nonpos)
  next
    case True
    obtain m cs es' where l: "cups_read_loop bytes (0, [], input w) = (m, cs, es')"
      by (cases "cups_read_loop bytes (0, [], input w)") auto
    with assms have "cs = bs" "m = n" by (simp_all add: cups_read_def)
    with cups_read_loop_result [OF l] True p show ?thesis by auto
  qed
qed

lemma length_slice: "off + n \<le> length mem \<Longrightarrow> length (slice mem off n) = n"
  by (auto simp: slice_def min_def)

lemma buffered_step_inv:
  assumes "rr_inv bytes (r, w, tot, left, buf)" and "tot < bytes"
  shows "case buffered_step bytes (r, w, tot, left, buf) of
           Inl (n, bs, r', w') \<Rightarrow> n = 0 \<and> buffer_ok r' \<and> int (length bs) \<le> bytes
         | Inr s' \<Rightarrow> rr_inv bytes s' \<and> tot < fst (snd (snd s'))"
proof -
  from assms(1) have ok: "buffer_ok r" and left: "left = int (bufend r) - int (bufptr r)"
    and len: "int (length buf) = tot" by (simp_all add: rr_inv_def)
  from ok left have l0: "0 \<le> left" by (simp add: buffer_ok_def)
  show ?thesis
  proof (cases "left = 0")
    case False
    with l0 have lp: "0 < left" by simp
    define k where "k = min (bytes - tot) left"
    from lp assms(2) have k: "0 < k" "k \<le> left" "k \<le> bytes - tot" by (simp_all add: k_def)
    have step: "buffered_step bytes (r, w, tot, left, buf) =
                  Inr (r\<lparr>bufptr := bufptr r + nat k\<rparr>, w, tot + k, left - k,
                       buf @ slice (buffer r) (bufptr r) (nat k))"
      using False by (simp add: buffered_step_def Let_def k_def)
    from k ok left have in_buf: "bufptr r + nat k \<le> bufend r" by (simp add: buffer_ok_def)
    with ok have "length (slice (buffer r) (bufptr r) (nat k)) = nat k"
      by (intro length_slice) (simp add: buffer_ok_def)
    with k len have l': "int (length (buf @ slice (buffer r) (bufptr r) (nat k))) = tot + k" by simp
    from k left have left': "left - k = int (bufend r) - int (bufptr r + nat k)" by simp
    from ok in_buf have ok': "buffer_ok (r\<lparr>bufptr := bufptr r + nat k\<rparr>)" by (simp add: buffer_ok_def)
    from ok' left' l' k have "rr_inv bytes (r\<lparr>bufptr := bufptr r + nat k\<rparr>, w, tot + k, left - k,
                       buf @ slice (buffer r) (bufptr r) (nat k))"
      unfolding rr_inv_def prod.case by simp
    with k show ?thesis unfolding step by simp
  next
    case True
    show ?thesis
    proof (cases "bytes - tot < 16")
      case False
      obtain n bs w1 where rd: "cups_read w (bytes - tot) = (n, bs, w1)"
        by (cases "cups_read w (bytes - tot)") auto
      from cups_read_length [OF rd] assms(2)
      have "int (length bs) \<le> bytes - tot" "0 < n \<Longrightarrow> n = bytes - tot \<and> int (length bs) = bytes - tot"
        by simp_all
      with True False rd ok left len assms(2) show ?thesis
        by (auto simp: buffered_step_def Let_def rr_inv_def)
    next
      case small: True
      obtain n bs w1 where rd: "cups_read w (bufsize r) = (n, bs, w1)"
        by (cases "cups_read w (bufsize r)") auto
      from ok have bsz: "bufsize r = int (length (buffer r))" by (simp add: buffer_ok_def)
      from cups_read_length [OF rd] bsz
      have b1: "length bs \<le> length (buffer r)"
        and b2: "0 < n \<Longrightarrow> n = int (length (buffer r)) \<and> length bs = length (buffer r)"
        by simp_all
      from b1 have st: "length (store (buffer r) 0 bs) = length (buffer r)"
        by (simp add: store_def)
      show ?thesis
      proof (cases "n \<le> 0")
        case True
        with \<open>left = 0\<close> small rd ok len assms(2) st show ?thesis
          by (simp add: buffered_step_def Let_def buffer_ok_def)
      next
        case False
        then have np: "0 < n" by simp
        define k where "k = min (bytes - tot) n"
        from np assms(2) have k: "0 < k" "k \<le> n" "k \<le> bytes - tot" by (simp_all add: k_def)
        let ?r = "r\<lparr>buffer := store (buffer r) 0 bs, bufptr := nat k, bufend := nat n\<rparr>"
        have step: "buffered_step bytes (r, w, tot, left, buf) =
                      Inr (?r, w1, tot + k, n - k, buf @ slice (store (buffer r) 0 bs) 0 (nat k))"
          using \<open>left = 0\<close> small rd False by (simp add: buffered_step_def Let_def k_def)
        from b2 [OF np] st k have "length (slice (store (buffer r) 0 bs) 0 (nat k)) = nat k"
          by (intro length_slice) simp
        with k len have l': "int (length (buf @ slice (store (buffer r) 0 bs) 0 (nat k))) = tot + k"
          by simp
        from b2 [OF np] st k bsz have ok': "buffer_ok ?r" by (simp add: buffer_ok_def)
        from k np have left': "n - k = int (bufend ?r) - int (bufptr ?r)" by simp
        from ok' left' l' k have "rr_inv bytes (?r, w1, tot + k, n - k,
                        buf @ slice (store (buffer r) 0 bs) 0 (nat k))"
          unfolding rr_inv_def prod.case by simp
        with k show ?thesis unfolding step by simp
      qed
    qed
  qed
qed


lemma raster_read_loop_buffered:
  "rr_inv bytes (r, w, tot, left, buf) \<Longrightarrow>
   raster_read_loop bytes (r, w, tot, left, buf) = (n, bs, r', w') \<Longrightarrow>
   (n = 0 \<or> (n = bytes \<and> int (length bs) = bytes)) \<and> buffer_ok r' \<and> int (length bs) \<le> bytes"
proof (induction bytes "(r, w, tot, left, buf)" arbitrary: r w tot left buf
    rule: raster_read_loop.induct)
  case (1 bytes r w tot left buf)
  show ?case
  proof (cases "tot < bytes")
    case False
    with "1.prems" show ?thesis by (auto simp: raster_read_loop.simps rr_inv_def)
  next
    case True
    from "1.prems"(1) have l0: "0 \<le> left" by (simp add: rr_inv_def buffer_ok_def)
    note ref = raster_read_step_refines [OF l0 True, of r w buf]
    note inv = buffered_step_inv [OF "1.prems"(1) True]
    show ?thesis
    proof (cases "raster_read_step bytes (r, w, tot, left, buf)")
      case (Inl res)
      with True "1.prems"(2) have "res = (n, bs, r', w')" by (simp add: raster_read_loop.simps)
      with inv Inl ref show ?thesis by simp
    next
      case (Inr s')
      obtain r1 w1 tot1 left1 buf1 where s': "s' = (r1, w1, tot1, left1, buf1)" by (cases s') auto
      from inv Inr ref s' have i1: "rr_inv bytes (r1, w1, tot1, left1, buf1)" by simp
      from True Inr "1.prems"(2) s' have "raster_read_loop bytes (r1, w1, tot1, left1, buf1) = (n, bs, r', w')"
        by (simp add: raster_read_loop.simps)
      with "1.hyps" [OF True Inr [unfolded s'] i1] show ?thesis .
    qed
  qed
qed

lemma cups_raster_read_buffered:
  assumes "compressed r" and "buffer_ok r" and "cups_raster_read h r bytes w = (n, bs, r', w')"
  shows "(n = 0 \<or> (n = bytes \<and> int (length bs) = bytes)) \<and> buffer_ok r' \<and>
         int (length bs) \<le> max bytes 0"
proof (cases "0 \<le> bytes")
  case False
  have loop: "raster_read_loop bytes (r0, w0, 0, l0, []) = (0, [], r0, w0)" for r0 w0 l0
    using False by (simp add: raster_read_loop.simps)
  from assms show ?thesis
    unfolding cups_raster_read_def Let_def loop
    by (auto simp: buffer_ok_def alloc_def split: if_splits prod.splits bool.splits list.splits)
next
  case True
  define cnt where "cnt = sint (2 * cupsBytesPerLine h (header r))"
  show ?thesis
  proof (cases "cnt > bufsize r")
    case False
    from assms(2) True have "rr_inv bytes (r, w, 0, int (bufend r) - int (bufptr r), [])"
      by (simp add: rr_inv_def)
    moreover from assms(1,3) False
    have "raster_read_loop bytes (r, w, 0, int (bufend r) - int (bufptr r), []) = (n, bs, r', w')"
      by (simp add: cups_raster_read_def Let_def cnt_def)
    ultimately show ?thesis using raster_read_loop_buffered True by fastforce
  next
    case grow: True
    obtain ok w0 where al: "alloc w = (ok, w0)" by (cases "alloc w") auto
    show ?thesis
    proof (cases ok)
      case False
      with assms grow al True show ?thesis by (simp add: cups_raster_read_def Let_def cnt_def)
    next
      case ok: True
      let ?r = "r\<lparr>buffer := take (nat cnt) (buffer r @ replicate (nat cnt) 0), bufsize := cnt\<rparr>"
      from assms(2) grow have "buffer_ok ?r" by (auto simp: buffer_ok_def min_def)
      with True have "rr_inv bytes (?r, w0, 0, int (bufend r) - int (bufptr r), [])"
        by (simp add: rr_inv_def)
      moreover from assms(1,3) grow al ok
      have "raster_read_loop bytes (?r, w0, 0, int (bufend r) - int (bufptr r), []) = (n, bs, r', w')"
        by (simp add: cups_raster_read_def Let_def cnt_def)
      ultimately show ?thesis using raster_read_loop_buffered True by fastforce
    qed
  qed
qed

lemma raster_read_from_buffer:
  assumes "compressed r" and "buffer_ok r"
    and "sint (2 * cupsBytesPerLine h (header r)) \<le> bufsize r"
    and "0 < n" and "bufptr r + nat n \<le> bufend r"
  shows "cups_raster_read h r n w =
           (n, slice (buffer r) (bufptr r) (nat n), r\<lparr>bufptr := bufptr r + nat n\<rparr>, w)"
proof -
  define left where "left = int (bufend r) - int (bufptr r)"
  from assms(4,5) have l: "0 < left" "n \<le> left" by (simp_all add: left_def)
  then have m: "min (n - 0) left = n" by simp
  from l have step: "buffered_step n (r, w, 0, left, []) =
      Inr (r\<lparr>bufptr := bufptr r + nat n\<rparr>, w, n, left - n, slice (buffer r) (bufptr r) (nat n))"
    by (simp add: buffered_step_def Let_def m)
  from l have ref: "raster_read_step n (r, w, 0, left, []) = buffered_step n (r, w, 0, left, [])"
    using assms(4) by (intro raster_read_step_refines) simp_all
  have "raster_read_loop n (r, w, 0, left, []) =
          raster_read_loop n (r\<lparr>bufptr := bufptr r + nat n\<rparr>, w, n, left - n,
                              slice (buffer r) (bufptr r) (nat n))"
    using assms(4) by (simp add: raster_read_loop.simps [of n r w 0] ref step)
  also have "\<dots> = (n, slice (buffer r) (bufptr r) (nat n), r\<lparr>bufptr := bufptr r + nat n\<rparr>, w)"
    by (simp add: raster_read_loop.simps)
  finally show ?thesis
    using assms(1,3) by (simp add: cups_raster_read_def Let_def left_def)
qed

lemma cups_raster_read_spec:
  assumes "compressed r"
  shows "sint (2 * cupsBytesPerLine h (header r)) \<le> bufsize r \<Longrightarrow>
           cups_raster_read h r bytes w =
             buffered_loop bytes (r, w, 0, int (bufend r) - int (bufptr r), [])"
    and "bufsize r < sint (2 * cupsBytesPerLine h (header r)) \<Longrightarrow> alloc w = (True, w1) \<Longrightarrow>
           cups_raster_read h r bytes w =
             buffered_loop bytes
               (r\<lparr>buffer := take (nat (sint (2 * cupsBytesPerLine h (header r))))
                                (buffer r @ replicate (nat (sint (2 * cupsBytesPerLine h (header r)))) 0),
                  bufsize := sint (2 * cupsBytesPerLine h (header r))\<rparr>,
                w1, 0, int (bufend r) - int (bufptr r), [])"
    and "bufsize r < sint (2 * cupsBytesPerLine h (header r)) \<Longrightarrow> alloc w = (False, w1) \<Longrightarrow>
           cups_raster_read h r bytes w = (0, [], r, w1)"
  using assms by (simp_all add: cups_raster_read_def Let_def raster_read_loop_spec)

lemma hdr_ex_K_fields:
  "cupsBytesPerLine cups_le (put32 cups_le hdr_ex 420 1) = 4"
  "cupsHeight cups_le (put32 cups_le hdr_ex 420 1) = 3"
  "cupsBitsPerColor cups_le (put32 cups_le hdr_ex 420 1) = 8"
  "cupsBitsPerPixel cups_le (put32 cups_le hdr_ex 420 1) = 8"
  "cupsColorOrder cups_le (put32 cups_le hdr_ex 420 1) = 0"
  "cupsColorSpace cups_le (put32 cups_le hdr_ex 420 1) = 3"
  "cupsNumColors cups_le (put32 cups_le hdr_ex 420 1) = 1"
  by (simp_all add: cupsBytesPerLine_def cupsHeight_def cupsBitsPerColor_def cupsBitsPerPixel_def
      cupsColorOrder_def cupsColorSpace_def cupsNumColors_def cups_le_simps hdr_ex_def)

lemma packed_ex_simps:
  "mode packed_ex = CUPS_RASTER_READ" "compressed packed_ex" "\<not> swapped packed_ex"
  "header packed_ex = put32 cups_le hdr_ex 420 1" "bpp packed_ex = 1" "remaining packed_ex = 3"
  "count packed_ex = 0" "pixels packed_ex = [0, 0, 0, 0]" "pend packed_ex = 4" "pcurrent packed_ex = 0"
  "buffer packed_ex = []" "bufptr packed_ex = 0" "bufend packed_ex = 0" "bufsize packed_ex = 0"
proof -
  have hd: "header packed_ex = put32 cups_le hdr_ex 420 1"
    by (simp add: packed_ex_def cups_raster_update_def Let_def calloc_raster_def hdr_ex_fields
        cups_le_simps cspace_1_2_def)
  have four: "replicate 4 (0 :: byte) = [0, 0, 0, 0]" by (simp add: eval_nat_numeral)
  show "header packed_ex = put32 cups_le hdr_ex 420 1" by (rule hd)
  show "mode packed_ex = CUPS_RASTER_READ" "compressed packed_ex" "\<not> swapped packed_ex"
    "count packed_ex = 0" "pcurrent packed_ex = 0"
    "buffer packed_ex = []" "bufptr packed_ex = 0" "bufend packed_ex = 0" "bufsize packed_ex = 0"
    by (simp_all add: packed_ex_def cups_raster_update_def Let_def calloc_raster_def)
  show "bpp packed_ex = 1" "remaining packed_ex = 3"
    using update_fields [of cups_le "(calloc_raster cups_le 3 CUPS_RASTER_READ)
        \<lparr>sync := CUPS_RASTER_SYNCv2 cups_le, header := hdr_ex, compressed := True\<rparr>"]
    unfolding packed_ex_def [symmetric] hd by (simp_all add: hdr_ex_K_fields cups_le_simps)
  have "pixels packed_ex = replicate (unat (cupsBytesPerLine cups_le (header packed_ex))) 0 \<and>
        pend packed_ex = unat (cupsBytesPerLine cups_le (header packed_ex))"
    by (simp add: packed_ex_def cups_raster_update_def Let_def calloc_raster_def)
  then show "pixels packed_ex = [0, 0, 0, 0]" "pend packed_ex = 4"
    unfolding hd by (simp_all add: hdr_ex_K_fields four)
qed

lemma replicate_8: "replicate 8 (0 :: byte) = [0, 0, 0, 0, 0, 0, 0, 0]"
  by (simp add: eval_nat_numeral)

lemma packed_ex_ok: "buffer_ok packed_ex" "rr_inv 1 (packed_ex, w, 0, 0, [])"
  by (simp_all add: buffer_ok_def rr_inv_def packed_ex_simps)

text \<open>
  Claim C2. The buffered reader is the reader of section 4.2. A round of the code's
  loop is \<open>buffered_step\<close> and its loop is \<open>buffered_loop\<close>, from every
  state: while bytes are outstanding it refills the whole buffer through
  \<^verbatim>\<open>cups_read\<close> and copies (buffer empty, fewer than 16 outstanding), reads
  straight into the destination (buffer empty, 16 or more outstanding), or copies
  the minimum of the outstanding and the buffered bytes; a \<^verbatim>\<open>cups_read\<close>
  that returns 0 or less makes the call return 0. A call on a compressed stream is
  that loop run from no byte stored and \<open>bufend - bufptr\<close> bytes buffered, on the
  stream as it is or, when the buffer is smaller than two rows, on the stream with
  the buffer grown to two rows. A call for bytes that are all in the buffer returns
  them from the cursor on, moves the cursor past them and reads nothing. Under the
  invariant a round that goes on has stored at least one byte more and keeps the
  invariant, and a call returns 0 or the number of bytes asked for, having then
  stored exactly that many.
\<close>

theorem buffered_reader_spec:
  "(tot < bytes \<longrightarrow>
      raster_read_step bytes (r, w, tot, left, buf) = buffered_step bytes (r, w, tot, left, buf)) \<and>
   raster_read_loop bytes (r, w, tot, left, buf) = buffered_loop bytes (r, w, tot, left, buf) \<and>
   (compressed r \<and> sint (2 * cupsBytesPerLine h (header r)) \<le> bufsize r \<longrightarrow>
      cups_raster_read h r bytes w =
        buffered_loop bytes (r, w, 0, int (bufend r) - int (bufptr r), [])) \<and>
   (compressed r \<and> bufsize r < sint (2 * cupsBytesPerLine h (header r)) \<and>
    alloc w = (True, w1) \<longrightarrow>
      cups_raster_read h r bytes w =
        buffered_loop bytes
          (r\<lparr>buffer := take (nat (sint (2 * cupsBytesPerLine h (header r))))
                           (buffer r @ replicate (nat (sint (2 * cupsBytesPerLine h (header r)))) 0),
             bufsize := sint (2 * cupsBytesPerLine h (header r))\<rparr>,
           w1, 0, int (bufend r) - int (bufptr r), [])) \<and>
   (compressed r \<and> buffer_ok r \<and> sint (2 * cupsBytesPerLine h (header r)) \<le> bufsize r \<and>
    0 < bytes \<and> int (bufptr r) + bytes \<le> int (bufend r) \<longrightarrow>
      cups_raster_read h r bytes w =
        (bytes, slice (buffer r) (bufptr r) (nat bytes), r\<lparr>bufptr := bufptr r + nat bytes\<rparr>, w)) \<and>
   (rr_inv bytes (r, w, tot, left, buf) \<and> tot < bytes \<longrightarrow>
      (case buffered_step bytes (r, w, tot, left, buf) of
         Inl (n, bs, r', w') \<Rightarrow> n = 0 \<and> buffer_ok r'
       | Inr s' \<Rightarrow> rr_inv bytes s' \<and> tot < fst (snd (snd s')))) \<and>
   (compressed r \<and> buffer_ok r \<longrightarrow>
      (case cups_raster_read h r bytes w of
         (n, bs, r', w') \<Rightarrow>
           (n = 0 \<or> (n = bytes \<and> int (length bs) = bytes)) \<and> buffer_ok r'))"
proof (intro conjI impI)
  assume "tot < bytes"
  then show "raster_read_step bytes (r, w, tot, left, buf) =
             buffered_step bytes (r, w, tot, left, buf)"
    by (rule raster_read_step_spec)
next
  show "raster_read_loop bytes (r, w, tot, left, buf) = buffered_loop bytes (r, w, tot, left, buf)"
    by (rule raster_read_loop_spec)
next
  assume "compressed r \<and> sint (2 * cupsBytesPerLine h (header r)) \<le> bufsize r"
  then show "cups_raster_read h r bytes w =
        buffered_loop bytes (r, w, 0, int (bufend r) - int (bufptr r), [])"
    using cups_raster_read_spec(1) by blast
next
  assume "compressed r \<and> bufsize r < sint (2 * cupsBytesPerLine h (header r)) \<and>
    alloc w = (True, w1)"
  then show "cups_raster_read h r bytes w =
        buffered_loop bytes
          (r\<lparr>buffer := take (nat (sint (2 * cupsBytesPerLine h (header r))))
                           (buffer r @ replicate (nat (sint (2 * cupsBytesPerLine h (header r)))) 0),
             bufsize := sint (2 * cupsBytesPerLine h (header r))\<rparr>,
           w1, 0, int (bufend r) - int (bufptr r), [])"
    using cups_raster_read_spec(2) by blast
next
  assume a: "compressed r \<and> buffer_ok r \<and> sint (2 * cupsBytesPerLine h (header r)) \<le> bufsize r \<and>
    0 < bytes \<and> int (bufptr r) + bytes \<le> int (bufend r)"
  then have "bufptr r + nat bytes \<le> bufend r" by linarith
  with a show "cups_raster_read h r bytes w =
        (bytes, slice (buffer r) (bufptr r) (nat bytes), r\<lparr>bufptr := bufptr r + nat bytes\<rparr>, w)"
    by (intro raster_read_from_buffer) simp_all
next
  assume "rr_inv bytes (r, w, tot, left, buf) \<and> tot < bytes"
  then have "case buffered_step bytes (r, w, tot, left, buf) of
           Inl (n, bs, r', w') \<Rightarrow> n = 0 \<and> buffer_ok r' \<and> int (length bs) \<le> bytes
         | Inr s' \<Rightarrow> rr_inv bytes s' \<and> tot < fst (snd (snd s'))"
    using buffered_step_inv by blast
  then show "case buffered_step bytes (r, w, tot, left, buf) of
         Inl (n, bs, r', w') \<Rightarrow> n = 0 \<and> buffer_ok r'
       | Inr s' \<Rightarrow> rr_inv bytes s' \<and> tot < fst (snd (snd s'))"
    by (auto split: sum.splits)
next
  assume "compressed r \<and> buffer_ok r"
  then show "case cups_raster_read h r bytes w of
         (n, bs, r', w') \<Rightarrow>
           (n = 0 \<or> (n = bytes \<and> int (length bs) = bytes)) \<and> buffer_ok r'"
    using cups_raster_read_buffered [of r h bytes w] by (auto split: prod.splits)
qed

lemma packed_mid_simps:
  "compressed packed_mid" "header packed_mid = put32 cups_le hdr_ex 420 1"
  "buffer packed_mid = [2, 3, 0xaa, 0, 3, 0xbb, 7, 7]" "bufptr packed_mid = 1"
  "bufend packed_mid = 8" "bufsize packed_mid = 8"
  by (simp_all add: packed_mid_def packed_ex_simps)

lemma packed_reads:
  "cups_raster_read cups_le packed_ex 1 (w_sync [2, 3, 0xaa, 0, 3, 0xbb, 7, 7, 9]) =
     (1, [2], packed_mid, w_sync [9])"
  "cups_raster_read cups_le packed_mid 3 (w_sync [9]) =
     (3, [3, 0xaa, 0], packed_mid\<lparr>bufptr := 4\<rparr>, w_sync [9])"
  "fst (cups_raster_read cups_le packed_ex 1 (w_sync [2, 3, 0xaa])) = 0"
  "fst (cups_raster_read cups_le packed_ex 16
          (w_sync [1, 2, 3, 4, 5, 6, 7, 8, 9, 10, 11, 12, 13, 14, 15, 16, 17])) = 16"
  "fst (snd (cups_raster_read cups_le packed_ex 16
          (w_sync [1, 2, 3, 4, 5, 6, 7, 8, 9, 10, 11, 12, 13, 14, 15, 16, 17]))) =
     [1, 2, 3, 4, 5, 6, 7, 8, 9, 10, 11, 12, 13, 14, 15, 16]"
  by (simp_all add: cups_raster_read_def packed_ex_simps packed_mid_simps
      hdr_ex_K_fields Let_def alloc_def
      w_sync_def raster_read_loop.simps raster_read_step_def raster_copy_def cups_read_def
      cups_read_loop.simps cups_read_step_def store_def slice_def replicate_8 packed_mid_def)

lemma packed_hyps:
  "compressed packed_ex" "buffer_ok packed_ex"
  "rr_inv 1 (packed_ex, w, 0, 0, [])"
  "bufsize packed_ex < sint (2 * cupsBytesPerLine cups_le (header packed_ex))"
  "alloc (w_sync bs) = (True, w_sync bs)"
  "compressed packed_mid" "buffer_ok packed_mid"
  "sint (2 * cupsBytesPerLine cups_le (header packed_mid)) \<le> bufsize packed_mid"
  "int (bufptr packed_mid) + 3 \<le> int (bufend packed_mid)"
  by (simp_all add: packed_ex_ok packed_ex_simps packed_mid_simps hdr_ex_K_fields buffer_ok_def
      alloc_def w_sync_def)

lemma packed_grown:
  "packed_ex\<lparr>buffer := take (nat (sint (2 * cupsBytesPerLine cups_le (header packed_ex))))
       (buffer packed_ex @ replicate (nat (sint (2 * cupsBytesPerLine cups_le (header packed_ex)))) 0),
     bufsize := sint (2 * cupsBytesPerLine cups_le (header packed_ex))\<rparr> =
   packed_ex\<lparr>buffer := [0, 0, 0, 0, 0, 0, 0, 0], bufsize := 8\<rparr>"
  by (simp add: packed_ex_simps hdr_ex_K_fields replicate_8)

theorem buffered_reader_spec_witness:
  "(0 :: int) < 1 \<and> compressed packed_ex \<and> buffer_ok packed_ex \<and>
   rr_inv 1 (packed_ex, w_sync [2, 3, 0xaa, 0, 3, 0xbb, 7, 7, 9], 0, 0, []) \<and>
   bufsize packed_ex < sint (2 * cupsBytesPerLine cups_le (header packed_ex)) \<and>
   alloc (w_sync [2, 3, 0xaa, 0, 3, 0xbb, 7, 7, 9]) = (True, w_sync [2, 3, 0xaa, 0, 3, 0xbb, 7, 7, 9]) \<and>
   cups_raster_read cups_le packed_ex 1 (w_sync [2, 3, 0xaa, 0, 3, 0xbb, 7, 7, 9]) =
     (1, [2], packed_mid, w_sync [9]) \<and>
   buffered_loop 1 (packed_ex\<lparr>buffer := [0, 0, 0, 0, 0, 0, 0, 0], bufsize := 8\<rparr>,
                    w_sync [2, 3, 0xaa, 0, 3, 0xbb, 7, 7, 9], 0, 0, []) =
     (1, [2], packed_mid, w_sync [9]) \<and>
   compressed packed_mid \<and> buffer_ok packed_mid \<and>
   sint (2 * cupsBytesPerLine cups_le (header packed_mid)) \<le> bufsize packed_mid \<and>
   (0 :: int) < 3 \<and> int (bufptr packed_mid) + 3 \<le> int (bufend packed_mid) \<and>
   cups_raster_read cups_le packed_mid 3 (w_sync [9]) =
     (3, slice (buffer packed_mid) (bufptr packed_mid) 3,
      packed_mid\<lparr>bufptr := bufptr packed_mid + 3\<rparr>, w_sync [9]) \<and>
   slice (buffer packed_mid) (bufptr packed_mid) 3 = [3, 0xaa, 0] \<and>
   buffered_loop 3 (packed_mid, w_sync [9], 0, 7, []) =
     (3, [3, 0xaa, 0], packed_mid\<lparr>bufptr := 4\<rparr>, w_sync [9]) \<and>
   fst (cups_raster_read cups_le packed_ex 1 (w_sync [2, 3, 0xaa])) = 0 \<and>
   fst (cups_raster_read cups_le packed_ex 16
          (w_sync [1, 2, 3, 4, 5, 6, 7, 8, 9, 10, 11, 12, 13, 14, 15, 16, 17])) = 16 \<and>
   fst (snd (cups_raster_read cups_le packed_ex 16
          (w_sync [1, 2, 3, 4, 5, 6, 7, 8, 9, 10, 11, 12, 13, 14, 15, 16, 17]))) =
     [1, 2, 3, 4, 5, 6, 7, 8, 9, 10, 11, 12, 13, 14, 15, 16]"
proof -
  let ?w = "w_sync [2, 3, 0xaa, 0, 3, 0xbb, 7, 7, 9]"
  note t1 = buffered_reader_spec [where r = packed_ex and h = cups_le and bytes = 1 and left = 0
      and tot = 0 and buf = "[]" and w = ?w and ?w1.0 = ?w]
  note t2 = buffered_reader_spec [where r = packed_mid and h = cups_le and bytes = 3 and left = 7
      and tot = 0 and buf = "[]" and w = "w_sync [9]" and ?w1.0 = "w_sync [9]"]
  from t1 packed_hyps(1,4,5) have
    "cups_raster_read cups_le packed_ex 1 ?w =
       buffered_loop 1 (packed_ex\<lparr>buffer := [0, 0, 0, 0, 0, 0, 0, 0], bufsize := 8\<rparr>, ?w, 0,
                        int (bufend packed_ex) - int (bufptr packed_ex), [])"
    unfolding packed_grown by blast
  then have g: "buffered_loop 1 (packed_ex\<lparr>buffer := [0, 0, 0, 0, 0, 0, 0, 0], bufsize := 8\<rparr>,
                    ?w, 0, 0, []) = (1, [2], packed_mid, w_sync [9])"
    by (simp add: packed_reads(1) packed_ex_simps)
  have "(0 :: int) < 3" by simp
  with t2 packed_hyps(6,7,8,9) have
    c: "cups_raster_read cups_le packed_mid 3 (w_sync [9]) =
     (3, slice (buffer packed_mid) (bufptr packed_mid) (nat 3),
      packed_mid\<lparr>bufptr := bufptr packed_mid + nat 3\<rparr>, w_sync [9])"
    by blast
  from t2 packed_hyps(6,8) have
    "cups_raster_read cups_le packed_mid 3 (w_sync [9]) =
       buffered_loop 3 (packed_mid, w_sync [9], 0,
                        int (bufend packed_mid) - int (bufptr packed_mid), [])"
    by blast
  then have l: "buffered_loop 3 (packed_mid, w_sync [9], 0, 7, []) =
     (3, [3, 0xaa, 0], packed_mid\<lparr>bufptr := 4\<rparr>, w_sync [9])"
    by (simp add: packed_reads(2) packed_mid_simps)
  have s: "slice (buffer packed_mid) (bufptr packed_mid) 3 = [3, 0xaa, 0]"
    by (simp add: packed_mid_simps slice_def)
  from c have c': "cups_raster_read cups_le packed_mid 3 (w_sync [9]) =
     (3, slice (buffer packed_mid) (bufptr packed_mid) 3,
      packed_mid\<lparr>bufptr := bufptr packed_mid + 3\<rparr>, w_sync [9])" by simp
  show ?thesis
    using packed_hyps g c' s l packed_reads by simp
qed

subsection \<open>Reading a page header\<close>

lemma store_zeros:
  "length bs \<le> n \<Longrightarrow> store (replicate n 0) 0 bs = bs @ replicate (n - length bs) 0"
  by (simp add: store_def)

text \<open>
  Claim C7. On a read stream (its buffer in order if it is compressed),
  \<^verbatim>\<open>cups_raster_read_header\<close> asks \<^verbatim>\<open>cups_raster_read\<close> for \<open>len\<close> bytes, the size of
  the V1 record when the sync is \<^verbatim>\<open>SYNCv1\<close> or \<^verbatim>\<open>REVSYNCv1\<close> and of the V2 record
  otherwise, into a header of zeros. That read returns 0, -1 or \<open>len\<close>, having
  stored \<open>len\<close> bytes in the last case and fewer otherwise. If it returns less than
  \<open>len\<close>, the header read returns 0 and leaves the bytes obtained followed by zeros
  in the header. Otherwise the header is the \<open>len\<close> bytes read followed by zeros up
  to the V2 size (so the V2-only tail of a V1 read is zero), swapped if the stream
  is, and \<^verbatim>\<open>cups_raster_update\<close> is applied to it; the result is 1.
\<close>

theorem read_header_record:
  assumes "mode r = CUPS_RASTER_READ" and "compressed r \<longrightarrow> buffer_ok r"
    and "sizeof_header h \<le> sizeof_header2 h"
    and "len = (if sync r = CUPS_RASTER_SYNCv1 h \<or> sync r = CUPS_RASTER_REVSYNCv1 h
                then sizeof_header h else sizeof_header2 h)"
    and "cups_raster_read h (r\<lparr>header := replicate (sizeof_header2 h) 0\<rparr>) (int len) w = (n, bs, r2, w')"
  shows "(n = 0 \<or> n = - 1 \<or> n = int len) \<and> length bs \<le> len \<and> (n = int len \<longrightarrow> length bs = len) \<and>
         (n < int len \<longrightarrow>
            cups_raster_read_header h (Some r) w =
              (0, Some (r2\<lparr>header := bs @ replicate (sizeof_header2 h - length bs) 0\<rparr>), w')) \<and>
         (\<not> n < int len \<longrightarrow>
            cups_raster_read_header h (Some r) w =
              (1, Some (cups_raster_update h
                     (r2\<lparr>header := (if swapped r
                                       then swap_header h (bs @ replicate (sizeof_header2 h - len) 0)
                                       else bs @ replicate (sizeof_header2 h - len) 0)\<rparr>)), w'))"
proof -
  let ?r1 = "r\<lparr>header := replicate (sizeof_header2 h) 0\<rparr>"
  from cups_raster_read_same [OF assms(5)]
  have same: "header r2 = replicate (sizeof_header2 h) 0" "swapped r2 = swapped r"
    by (simp_all add: same_page_def)
  have res: "(n = 0 \<or> n = - 1 \<or> n = int len) \<and> length bs \<le> len \<and> (n = int len \<longrightarrow> length bs = len)"
  proof (cases "compressed r")
    case True
    with assms(2) have "compressed ?r1" "buffer_ok ?r1" by (simp_all add: buffer_ok_def)
    from cups_raster_read_buffered [OF this assms(5)] show ?thesis by auto
  next
    case False
    with assms(5) have rd: "cups_read w (int len) = (n, bs, w')"
      by (simp add: cups_raster_read_def split: prod.splits)
    from cups_read_length(1) [OF rd] have "length bs \<le> len" by simp
    moreover from cups_read_returns [where w = w and bytes = "int len"] rd
    have "(n = 0 \<or> n = int len \<or> n = - 1) \<and> (n = int len \<longrightarrow> int (length bs) = int len)" by simp
    ultimately show ?thesis by auto
  qed
  from assms(3,4) have le: "len \<le> sizeof_header2 h" by (simp split: if_splits)
  with res have st: "store (header r2) 0 bs = bs @ replicate (sizeof_header2 h - length bs) 0"
    unfolding same by (intro store_zeros) simp
  have hdr: "cups_raster_read_header h (Some r) w =
          (let r3 = r2\<lparr>header := bs @ replicate (sizeof_header2 h - length bs) 0\<rparr> in
           if n < int len then (0, Some r3, w')
           else (1, Some (cups_raster_update h
                    (if swapped r3 then r3\<lparr>header := swap_header h (header r3)\<rparr> else r3)), w'))"
  proof -
    have len_eq: "(if sync r = CUPS_RASTER_SYNCv1 h \<or> sync r = CUPS_RASTER_REVSYNCv1 h
                   then int (sizeof_header h) else int (sizeof_header2 h)) = int len"
      using assms(4) by simp
    show ?thesis
      unfolding cups_raster_read_header_def option.case Let_def len_eq assms(5) prod.case st
      using assms(1) by simp
  qed
  show ?thesis
  proof (intro conjI impI)
    from res show "n = 0 \<or> n = - 1 \<or> n = int len" "length bs \<le> len" by simp_all
  next
    assume "n = int len" with res show "length bs = len" by simp
  next
    assume "n < int len"
    then show "cups_raster_read_header h (Some r) w =
              (0, Some (r2\<lparr>header := bs @ replicate (sizeof_header2 h - length bs) 0\<rparr>), w')"
      unfolding hdr by (simp add: Let_def)
  next
    assume a: "\<not> n < int len"
    with res have "n = int len" "length bs = len" by auto
    with a same show "cups_raster_read_header h (Some r) w =
              (1, Some (cups_raster_update h
                     (r2\<lparr>header := (if swapped r
                                       then swap_header h (bs @ replicate (sizeof_header2 h - len) 0)
                                       else bs @ replicate (sizeof_header2 h - len) 0)\<rparr>)), w')"
      unfolding hdr by (simp add: Let_def)
  qed
qed

lemma v1_ex_simps:
  "mode v1_ex = CUPS_RASTER_READ" "\<not> compressed v1_ex" "\<not> swapped v1_ex"
  "sync v1_ex = CUPS_RASTER_SYNCv1 cups_le"
  by (simp_all add: v1_ex_def calloc_raster_def)

lemma w_ex_headers:
  "cups_read (w_sync (replicate 420 7 @ [9])) 420 = (420, replicate 420 7, w_sync [9])"
  "cups_read (w_sync [1, 2, 3]) 420 = (0, [1, 2, 3], (w_sync [])\<lparr>input := []\<rparr>)"
proof -
  show "cups_read (w_sync (replicate 420 7 @ [9])) 420 = (420, replicate 420 7, w_sync [9])"
    apply (simp add: w_sync_def cups_read_def cups_read_loop.simps [of 420 0] cups_read_step_def)
    apply (simp add: cups_read_loop.simps [of 420 420])
    done
  show "cups_read (w_sync [1, 2, 3]) 420 = (0, [1, 2, 3], (w_sync [])\<lparr>input := []\<rparr>)"
    apply (simp add: w_sync_def cups_read_def cups_read_loop.simps [of 420 0] cups_read_step_def)
    apply (simp add: cups_read_loop.simps [of 420 3] cups_read_step_def)
    done
qed

lemma v1_ex_read:
  "cups_raster_read cups_le (v1_ex\<lparr>header := replicate (sizeof_header2 cups_le) 0\<rparr>) (int 420)
     (w_sync (replicate 420 7 @ [9])) =
   (420, replicate 420 7, v1_ex\<lparr>header := replicate (sizeof_header2 cups_le) 0\<rparr>, w_sync [9])"
  "cups_raster_read cups_le (v1_ex\<lparr>header := replicate (sizeof_header2 cups_le) 0\<rparr>) (int 420)
     (w_sync [1, 2, 3]) =
   (0, [1, 2, 3], v1_ex\<lparr>header := replicate (sizeof_header2 cups_le) 0\<rparr>, (w_sync [])\<lparr>input := []\<rparr>)"
  by (simp_all add: cups_raster_read_def v1_ex_simps w_ex_headers)

theorem read_header_record_witness:
  "mode v1_ex = CUPS_RASTER_READ \<and> sizeof_header cups_le \<le> sizeof_header2 cups_le \<and>
   sync v1_ex = CUPS_RASTER_SYNCv1 cups_le \<and>
   cups_raster_read_header cups_le (Some v1_ex) (w_sync (replicate 420 7 @ [9])) =
     (1, Some (cups_raster_update cups_le (v1_ex\<lparr>header := replicate 420 7 @ replicate 1376 0\<rparr>)),
      w_sync [9]) \<and>
   cups_raster_read_header cups_le (Some v1_ex) (w_sync [1, 2, 3]) =
     (0, Some (v1_ex\<lparr>header := [1, 2, 3] @ replicate 1793 0\<rparr>), (w_sync [])\<lparr>input := []\<rparr>)"
proof -
  have a: "mode v1_ex = CUPS_RASTER_READ" "compressed v1_ex \<longrightarrow> buffer_ok v1_ex"
    "sizeof_header cups_le \<le> sizeof_header2 cups_le"
    "420 = (if sync v1_ex = CUPS_RASTER_SYNCv1 cups_le \<or> sync v1_ex = CUPS_RASTER_REVSYNCv1 cups_le
            then sizeof_header cups_le else sizeof_header2 cups_le)"
    by (simp_all add: v1_ex_simps cups_le_simps)
  from read_header_record [OF a v1_ex_read(1)]
  have ok: "cups_raster_read_header cups_le (Some v1_ex) (w_sync (replicate 420 7 @ [9])) =
     (1, Some (cups_raster_update cups_le (v1_ex\<lparr>header := replicate 420 7 @ replicate 1376 0\<rparr>)),
      w_sync [9])"
    by (simp add: v1_ex_simps cups_le_simps)
  from read_header_record [OF a v1_ex_read(2)]
  have short: "cups_raster_read_header cups_le (Some v1_ex) (w_sync [1, 2, 3]) =
     (0, Some (v1_ex\<lparr>header := [1, 2, 3] @ replicate 1793 0\<rparr>), (w_sync [])\<lparr>input := []\<rparr>)"
    by (simp add: v1_ex_simps cups_le_simps)
  from a ok short show ?thesis by (simp add: v1_ex_simps)
qed

subsection \<open>Rows from the read buffer\<close>

lemma store_store:
  "off \<le> length mem \<Longrightarrow> store (store mem off xs) (off + length xs) ys = store mem off (xs @ ys)"
  by (simp add: store_def ac_simps)

lemma length_store_in: "off + length bs \<le> length mem \<Longrightarrow> length (store mem off bs) = length mem"
  by (simp add: store_def)

lemma slice_store_same:
  "off \<le> length mem \<Longrightarrow> slice (store mem off bs) off (length bs) = bs"
  by (simp add: slice_def store_def)

lemma slice_store_end:
  "off \<le> length mem \<Longrightarrow> n \<le> length bs \<Longrightarrow>
   slice (store mem off bs) (off + length bs - n) n = drop (length bs - n) bs"
  by (simp add: slice_def store_def)

lemma repeat_pel_unfold:
  assumes "0 < B" and "0 < c" and "t + B \<le> length R"
  shows "repeat_pel (int B) R t c =
           repeat_pel (int B) (store R t (slice R (t - B) B)) (t + B) (c - int B)"
  using assms by (subst repeat_pel.simps) simp

lemma repeat_pel_copies:
  assumes "0 < B" and "length pel = B"
  shows "off \<le> length row \<Longrightarrow> B \<le> length pre \<Longrightarrow>
         drop (length pre - B) pre = pel \<Longrightarrow>
         off + length pre + m * B \<le> length row \<Longrightarrow>
         repeat_pel (int B) (store row off pre) (off + length pre) (int (m * B)) =
           Inr (store row off (pre @ concat (replicate m pel)), off + length pre + m * B)"
proof (induction m arbitrary: pre)
  case 0
  then show ?case by (simp add: repeat_pel.simps)
next
  case (Suc m)
  define R where "R = store row off pre"
  define t where "t = off + length pre"
  from Suc.prems have len: "length R = length row"
    unfolding R_def by (intro length_store_in) simp
  have sl: "slice R (t - B) B = pel"
    unfolding R_def t_def
    using slice_store_end [of off row B pre] Suc.prems by simp
  have st: "store R t pel = store row off (pre @ pel)"
    unfolding R_def t_def by (rule store_store) (rule Suc.prems(1))
  from assms(1) have "0 < Suc m * B" by simp
  then have c: "0 < int (Suc m * B)" by (simp only: of_nat_0_less_iff)
  have b: "t + B \<le> length R" using Suc.prems len by (simp add: t_def)
  have "repeat_pel (int B) R t (int (Suc m * B)) =
        repeat_pel (int B) (store R t (slice R (t - B) B)) (t + B) (int (Suc m * B) - int B)"
    by (rule repeat_pel_unfold [OF assms(1) c b])
  also have "\<dots> = repeat_pel (int B) (store row off (pre @ pel)) (off + length (pre @ pel)) (int (m * B))"
    unfolding sl st by (simp add: t_def assms add.assoc)
  also have "\<dots> = Inr (store row off ((pre @ pel) @ concat (replicate m pel)),
                        off + length (pre @ pel) + m * B)"
    using Suc.prems assms by (intro Suc.IH) simp_all
  finally show ?case by (simp add: assms R_def t_def add.assoc)
qed


lemma pending_length: "buffer_ok r \<Longrightarrow> length (pending r) = bufend r - bufptr r"
  by (auto simp: pending_def buffer_ok_def slice_def min_def)

lemma serve:
  assumes "serving h r" and "pending r = xs @ ys" and "xs \<noteq> []"
  shows "cups_raster_read h r (int (length xs)) w =
           (int (length xs), xs, r\<lparr>bufptr := bufptr r + length xs\<rparr>, w)"
    and "serving h (r\<lparr>bufptr := bufptr r + length xs\<rparr>)"
    and "pending (r\<lparr>bufptr := bufptr r + length xs\<rparr>) = ys"
proof -
  from assms(1) have ok: "buffer_ok r" by (simp add: serving_def)
  from pending_length [OF ok] assms(2) have len: "length xs + length ys = bufend r - bufptr r"
    by simp
  with assms(3) have in_buf: "bufptr r + length xs \<le> bufend r" by (cases xs) simp_all
  have "slice (buffer r) (bufptr r) (length xs) = take (length xs) (pending r)"
    using in_buf by (simp add: pending_def slice_def min_def)
  then have sl: "slice (buffer r) (bufptr r) (length xs) = xs" by (simp add: assms(2))
  from assms(3) have pos: "0 < int (length xs)" by simp
  from raster_read_from_buffer [of r h "int (length xs)" w] assms(1) pos in_buf sl
  show "cups_raster_read h r (int (length xs)) w =
           (int (length xs), xs, r\<lparr>bufptr := bufptr r + length xs\<rparr>, w)"
    by (simp add: serving_def)
  from assms(1) in_buf show "serving h (r\<lparr>bufptr := bufptr r + length xs\<rparr>)"
    by (simp add: serving_def buffer_ok_def)
  have "pending (r\<lparr>bufptr := bufptr r + length xs\<rparr>) = drop (length xs) (pending r)"
    using in_buf by (simp add: pending_def slice_def drop_take add.commute)
  then show "pending (r\<lparr>bufptr := bufptr r + length xs\<rparr>) = ys" by (simp add: assms(2))
qed



lemma byte_max: "unat (b :: byte) \<le> 255"
proof -
  have "unat b < 2 ^ LENGTH(8)" by (rule unsigned_less)
  then show ?thesis by simp
qed

lemma serve1:
  assumes "serving h r" and "pending r = b # ys"
  shows "cups_raster_read h r 1 w = (1, [b], r\<lparr>bufptr := bufptr r + 1\<rparr>, w)"
    and "serving h (r\<lparr>bufptr := bufptr r + 1\<rparr>)"
    and "pending (r\<lparr>bufptr := bufptr r + 1\<rparr>) = ys"
  using serve(1) [of h r "[b]" ys w] serve(2,3) [of h r "[b]" ys] assms by simp_all

lemma serving_bufptr [simp]:
  "bpp (r\<lparr>bufptr := k\<rparr>) = bpp r" "header (r\<lparr>bufptr := k\<rparr>) = header r"
  by simp_all

lemma literal_step:
  assumes sv: "serving h r" and pd: "pending r = b # xs @ ys"
    and hi: "b AND 128 \<noteq> 0" and bp: "bpp r = int B"
    and mx: "257 * int B \<le> INT_MAX"
    and n: "n = min ((257 - unat b) * B) budget" and len: "length xs = n" and pos: "0 < n"
  shows "unpack_step h (r, w, row, temp, int budget) =
           Inr (r\<lparr>bufptr := bufptr r + 1 + n\<rparr>, w, store row temp xs, temp + n,
                int budget - int n)"
proof -
  define r1 where "r1 = r\<lparr>bufptr := bufptr r + 1\<rparr>"
  note s1 = serve1(1) [OF sv pd, of w, folded r1_def] serve1(2,3) [OF sv pd, folded r1_def]
  from pos len have ne: "xs \<noteq> []" by auto
  note s2 = serve(1) [OF s1(2) s1(3) ne, of w, unfolded len]
  have ub: "unat b \<le> 255" by (rule byte_max)
  then have c0: "(257 - uint b) * int B = int ((257 - unat b) * B)"
    by (simp add: of_nat_diff)
  have le: "(257 - uint b) * int B \<le> 257 * int B"
    by (intro mult_right_mono) simp_all
  have cnt: "(if (257 - uint b) * int B > int budget then int budget else (257 - uint b) * int B) = int n"
    unfolding c0 n by (simp only: min_def of_nat_less_iff not_less split: if_split) auto
  have b1: "bpp r1 = int B" by (simp add: r1_def bp)
  from pos have n0: "int n \<noteq> 0" by simp
  have lr: "literal_run h b (r1, w, row, temp, int budget) =
              Inr (r1\<lparr>bufptr := bufptr r1 + n\<rparr>, w, store row temp xs, temp + n, int budget - int n)"
    unfolding literal_run_def prod.case Let_def b1 cnt s2
    using le mx n0 by simp
  show ?thesis
    unfolding unpack_step_def prod.case s1(1)
    using hi lr by (simp add: r1_def)
qed


lemma length_concat_replicate: "length (concat (replicate m xs)) = m * length xs"
  by (induction m) simp_all

lemma take_concat_replicate:
  "m \<le> c \<Longrightarrow> take (m * length xs) (concat (replicate c xs)) = concat (replicate m xs)"
proof -
  assume "m \<le> c"
  then obtain d where c: "c = m + d" by (auto simp: le_iff_add)
  show ?thesis
    unfolding c replicate_add concat_append by (simp add: length_concat_replicate)
qed

lemma byte_max_int: "uint (b :: byte) \<le> 255"
proof -
  have "uint b < 2 ^ LENGTH(8)" by (rule unsigned_less)
  then show ?thesis by simp
qed

lemma repeat_counts: "(uint (b :: byte) + 1) * int B = int ((unat b + 1) * B)"
  by (simp add: algebra_simps)

lemma repeat_step:
  assumes sv: "serving h r" and pd: "pending r = b # pel @ ys"
    and lo: "b AND 128 = 0" and bp: "bpp r = int B" and B: "0 < B"
    and mx: "257 * int B \<le> INT_MAX"
    and n: "min ((unat b + 1) * B) budget = m * B" and m: "0 < m"
    and len: "length pel = B" and fit: "temp + m * B \<le> length row"
  shows "unpack_step h (r, w, row, temp, int budget) =
           Inr (r\<lparr>bufptr := bufptr r + 1 + B\<rparr>, w, store row temp (concat (replicate m pel)),
                temp + m * B, int budget - int (m * B))"
proof -
  define r1 where "r1 = r\<lparr>bufptr := bufptr r + 1\<rparr>"
  note s1 = serve1(1) [OF sv pd, of w, folded r1_def] serve1(2,3) [OF sv pd, folded r1_def]
  from B len have ne: "pel \<noteq> []" by auto
  note s2 = serve(1) [OF s1(2) s1(3) ne, of w, unfolded len]
  note c0 = repeat_counts [of b B]
  have "(uint b + 1) * int B \<le> 257 * int B"
    using byte_max_int [of b] by (intro mult_right_mono) simp_all
  with mx have le: "\<not> (uint b + 1) * int B > INT_MAX" by simp
  have cnt: "(if (uint b + 1) * int B > int budget then int budget else (uint b + 1) * int B)
             = int (m * B)"
    unfolding c0 n [symmetric] by (simp only: min_def of_nat_less_iff not_less split: if_split) auto
  have b1: "bpp r1 = int B" by (simp add: r1_def bp)
  have b2: "bpp (r1\<lparr>bufptr := bufptr r1 + B\<rparr>) = int B" by (simp add: b1)
  from m have "B \<le> m * B" by simp
  then have ge: "\<not> int (m * B) < int B" by (simp only: of_nat_less_iff not_less)
  obtain m' where m': "m = Suc m'" using m by (cases m) auto
  have cm: "int (m * B) - int B = int (m' * B)" by (simp add: m')
  have rp: "repeat_pel (int B) (store row temp pel) (temp + length pel) (int (m' * B)) =
              Inr (store row temp (pel @ concat (replicate m' pel)), temp + length pel + m' * B)"
    using fit by (intro repeat_pel_copies [OF B len]) (simp_all add: len m')
  have B0: "int B \<noteq> 0" using B by simp
  have rr: "repeat_run h b (r1, w, row, temp, int budget) =
              Inr (r1\<lparr>bufptr := bufptr r1 + B\<rparr>, w, store row temp (concat (replicate m pel)),
                   temp + m * B, int budget - int (m * B))"
    unfolding repeat_run_def prod.case Let_def b1 cnt s2 b2 cm
    using le ge B0 rp by (simp add: len m')
  show ?thesis
    unfolding unpack_step_def prod.case s1(1)
    using lo rr by (simp add: r1_def)
qed

lemma abort_step:
  assumes sv: "serving h r" and pd: "pending r = b # ys"
    and lo: "b AND 128 = 0" and bp: "bpp r = int B"
    and mx: "257 * int B \<le> INT_MAX"
    and n: "min ((unat b + 1) * B) budget < B"
  shows "unpack_step h (r, w, row, temp, int budget) =
           Inl (Exit (r\<lparr>bufptr := bufptr r + 1\<rparr>, w, row, temp, int budget))"
proof -
  define r1 where "r1 = r\<lparr>bufptr := bufptr r + 1\<rparr>"
  note s1 = serve1(1) [OF sv pd, of w, folded r1_def] serve1(2,3) [OF sv pd, folded r1_def]
  note c0 = repeat_counts [of b B]
  have "(uint b + 1) * int B \<le> 257 * int B"
    using byte_max_int [of b] by (intro mult_right_mono) simp_all
  with mx have le: "\<not> (uint b + 1) * int B > INT_MAX" by simp
  define k where "k = min ((unat b + 1) * B) budget"
  have cnt: "(if (uint b + 1) * int B > int budget then int budget else (uint b + 1) * int B)
             = int k"
    unfolding c0 k_def by (simp only: min_def of_nat_less_iff not_less split: if_split) auto
  have b1: "bpp r1 = int B" by (simp add: r1_def bp)
  from n have lt: "int k < int B" unfolding k_def by (simp only: of_nat_less_iff)
  have rr: "repeat_run h b (r1, w, row, temp, int budget) =
              Inl (Exit (r1, w, row, temp, int budget))"
    unfolding repeat_run_def prod.case Let_def b1 cnt
    using le lt by simp
  show ?thesis
    unfolding unpack_step_def prod.case s1(1)
    using lo rr by (simp add: r1_def)
qed

text \<open>
  The opcode loop of the code produces what \<open>packbits_row\<close> produces, from the
  bytes the buffer holds, into any row with room for the budget.
\<close>

lemma store_Nil [simp]: "store mem off [] = mem"
  by (simp add: store_def)

lemma bufptr_same [simp]: "r\<lparr>bufptr := bufptr r\<rparr> = r"
  by simp

lemma unpack_loop_refines:
  assumes B: "0 < B" and mx: "257 * int B \<le> INT_MAX"
  shows "packbits_row B budget wire = Some (out, used) \<Longrightarrow> serving h r \<Longrightarrow>
         pending r = wire \<Longrightarrow> bpp r = int B \<Longrightarrow>
         temp + budget \<le> length row \<Longrightarrow>
         unpack_loop h (r, w, row, temp, int budget) =
           Exit (r\<lparr>bufptr := bufptr r + used\<rparr>, w, store row temp out, temp + length out,
                 int budget - int (length out)) \<and>
         length out \<le> budget \<and> used \<le> length wire \<and>
         serving h (r\<lparr>bufptr := bufptr r + used\<rparr>) \<and>
         pending (r\<lparr>bufptr := bufptr r + used\<rparr>) = drop used wire"
proof (induction budget arbitrary: wire out used r temp row rule: less_induct)
  case (less budget)
  show ?case
  proof (cases "budget = 0")
    case True
    with less.prems(1) have "out = []" "used = 0"
      by (simp_all add: packbits_row.simps [of B 0 wire])
    with True less.prems show ?thesis
      by (simp add: unpack_loop.simps [of h r w row temp 0])
  next
    case False
    then have pos: "0 < budget" by simp
    from less.prems(1) False obtain b rest where wire: "wire = b # rest"
      by (cases wire) (simp_all add: packbits_row.simps [of B budget "[]"])
    from less.prems(1) have "packbits_row B budget (b # rest) = Some (out, used)"
      by (simp add: wire)
    note ur = this [unfolded packbits_row.simps [of B budget "b # rest"]]
    have loop: "unpack_loop h (r, w, row, temp, int budget) =
                  (case unpack_step h (r, w, row, temp, int budget) of
                     Inl out \<Rightarrow> out | Inr s' \<Rightarrow> unpack_loop h s')"
      using pos by (simp add: unpack_loop.simps [of h r w row temp "int budget"])
    show ?thesis
    proof (cases "b AND 128 \<noteq> 0")
      case True
      define n where "n = min ((257 - unat b) * B) budget"
      from ur True pos
      have n0: "n \<noteq> 0" and ln: "n \<le> length rest"
        by (auto simp: Let_def n_def [symmetric] split: if_splits)
      from ur True pos n0 ln
      obtain out' used' where rec: "packbits_row B (budget - n) (drop n rest) = Some (out', used')"
        and out: "out = take n rest @ out'" and used: "used = 1 + n + used'"
        by (auto simp: Let_def n_def [symmetric] split: if_splits option.splits)
      define xs where "xs = take n rest"
      from ln have lxs: "length xs = n" by (simp add: xs_def)
      have pd: "pending r = b # xs @ drop n rest"
        using less.prems(3) wire by (simp add: xs_def)
      note out = out [folded xs_def]
      define r2 where "r2 = r\<lparr>bufptr := bufptr r + 1 + n\<rparr>"
      have step: "unpack_step h (r, w, row, temp, int budget) =
                    Inr (r2, w, store row temp xs, temp + n, int budget - int n)"
        unfolding r2_def
        using n0 by (intro literal_step [OF less.prems(2) pd True less.prems(4) mx n_def lxs]) simp
      have pd': "pending r = (b # xs) @ drop n rest" using pd by simp
      have sv2: "serving h r2" and pd2: "pending r2 = drop n rest"
        using serve(2,3) [OF less.prems(2) pd'] by (simp_all add: r2_def lxs)
      have nb: "n \<le> budget" by (simp add: n_def)
      have lt: "budget - n < budget" using n0 pos by simp
      have fit: "temp + n + (budget - n) \<le> length (store row temp xs)"
        using less.prems(5) nb lxs by (simp add: length_store_in)
      have ib: "int budget - int n = int (budget - n)" using nb by simp
      have b2: "bpp r2 = int B" by (simp add: r2_def less.prems(4))
      note ih = less.IH [OF lt rec sv2 pd2 b2 fit]
      have st: "store (store row temp xs) (temp + n) out' = store row temp (xs @ out')"
        using store_store [of temp row xs out'] less.prems(5) lxs by simp
      have r3: "r2\<lparr>bufptr := bufptr r2 + used'\<rparr> = r\<lparr>bufptr := bufptr r + used\<rparr>"
        by (simp add: r2_def used)
      from ih have
        l: "unpack_loop h (r2, w, store row temp xs, temp + n, int (budget - n)) =
              Exit (r\<lparr>bufptr := bufptr r + used\<rparr>, w, store row temp (xs @ out'),
                    temp + n + length out', int (budget - n) - int (length out'))"
        and lo: "length out' \<le> budget - n" and u: "used' \<le> length (drop n rest)"
        and sv3: "serving h (r\<lparr>bufptr := bufptr r + used\<rparr>)"
        and pd3: "pending (r\<lparr>bufptr := bufptr r + used\<rparr>) = drop used' (drop n rest)"
        unfolding st r3 by simp_all
      have tb: "temp + n + length out' = temp + length out" by (simp add: out lxs)
      have bb: "int (budget - n) - int (length out') = int budget - int (length out)"
        using nb by (simp add: out lxs)
      have "unpack_loop h (r, w, row, temp, int budget) =
              Exit (r\<lparr>bufptr := bufptr r + used\<rparr>, w, store row temp out, temp + length out,
                    int budget - int (length out))"
        unfolding loop step ib sum.case l tb bb out ..
      moreover have "length out \<le> budget" using lo nb lxs by (simp add: out)
      moreover have "used \<le> length wire" using u ln by (simp add: used wire)
      moreover have "pending (r\<lparr>bufptr := bufptr r + used\<rparr>) = drop used wire"
        using pd3 by (simp add: used wire add.commute)
      ultimately show ?thesis using sv3 by simp
    next
      case False
      then have lo: "b AND 128 = 0" by simp
      define n where "n = min ((unat b + 1) * B) budget"
      note ur2 = ur [unfolded list.case Let_def n_def [symmetric]]
      show ?thesis
      proof (cases "n < B")
        case True
        with ur2 lo pos have o: "out = []" "used = 1" by (auto split: if_splits)
        have pd: "pending r = b # rest" using less.prems(3) wire by simp
        have step: "unpack_step h (r, w, row, temp, int budget) =
                      Inl (Exit (r\<lparr>bufptr := bufptr r + 1\<rparr>, w, row, temp, int budget))"
          using True
          by (intro abort_step [OF less.prems(2) pd lo less.prems(4) mx]) (simp add: n_def)
        have "unpack_loop h (r, w, row, temp, int budget) =
                Exit (r\<lparr>bufptr := bufptr r + used\<rparr>, w, store row temp out, temp + length out,
                      int budget - int (length out))"
          unfolding loop step by (simp add: o)
        with serve1(2,3) [OF less.prems(2) pd] show ?thesis by (simp add: o wire)
      next
        case False
        with ur2 lo pos B
        have ln: "B \<le> length rest" and dv: "B dvd n"
          by (auto split: if_splits)
        from ur2 lo pos False B ln dv
        obtain out' used' where rec: "packbits_row B (budget - n) (drop B rest) = Some (out', used')"
          and out: "out = take n (concat (replicate (unat b + 1) (take B rest))) @ out'"
          and used: "used = 1 + B + used'"
          by (auto split: if_splits option.splits)
        from dv have "n = (n div B) * B" by simp
        then obtain m where nm: "n = m * B" by blast
        with False B have m: "0 < m" by (cases m) auto
        have "m * B \<le> (unat b + 1) * B" unfolding nm [symmetric] n_def by simp
        with B have mc: "m \<le> unat b + 1" by (simp only: mult_le_cancel2)
        note nmin = n_def [symmetric, unfolded nm]
        define pel where "pel = take B rest"
        from ln have lp: "length pel = B" by (simp add: pel_def)
        have em: "take (m * B) (concat (replicate (unat b + 1) pel)) = concat (replicate m pel)"
          using take_concat_replicate [OF mc, of pel] by (simp add: lp)
        define xs where "xs = concat (replicate m pel)"
        have lxs: "length xs = m * B" by (simp add: xs_def length_concat_replicate lp)
        have pd: "pending r = b # pel @ drop B rest"
          using less.prems(3) wire by (simp add: pel_def)
        have nb: "m * B \<le> budget" unfolding nm [symmetric] n_def by simp
        define r2 where "r2 = r\<lparr>bufptr := bufptr r + 1 + B\<rparr>"
        have fit0: "temp + m * B \<le> length row" using less.prems(5) nb by simp
        have step: "unpack_step h (r, w, row, temp, int budget) =
                      Inr (r2, w, store row temp xs, temp + m * B, int budget - int (m * B))"
          unfolding r2_def xs_def
          by (rule repeat_step [OF less.prems(2) pd lo less.prems(4) B mx nmin m lp fit0])
        have pd': "pending r = (b # pel) @ drop B rest" using pd by simp
        have sv2: "serving h r2" and pd2: "pending r2 = drop B rest"
          using serve(2,3) [OF less.prems(2) pd'] by (simp_all add: r2_def lp)
        have lt: "budget - m * B < budget" using m B pos by simp
        have fit: "temp + m * B + (budget - m * B) \<le> length (store row temp xs)"
          using less.prems(5) nb lxs by (simp add: length_store_in)
        have ib: "int budget - int (m * B) = int (budget - m * B)" using nb by simp
        have b2: "bpp r2 = int B" by (simp add: r2_def less.prems(4))
        note ih = less.IH [OF lt rec [unfolded nm] sv2 pd2 b2 fit]
        have st: "store (store row temp xs) (temp + m * B) out' = store row temp (xs @ out')"
          using store_store [of temp row xs out'] less.prems(5) lxs by simp
        have r3: "r2\<lparr>bufptr := bufptr r2 + used'\<rparr> = r\<lparr>bufptr := bufptr r + used\<rparr>"
          by (simp add: r2_def used)
        from ih have
          l: "unpack_loop h (r2, w, store row temp xs, temp + m * B, int (budget - m * B)) =
                Exit (r\<lparr>bufptr := bufptr r + used\<rparr>, w, store row temp (xs @ out'),
                      temp + m * B + length out', int (budget - m * B) - int (length out'))"
          and lo': "length out' \<le> budget - m * B" and u: "used' \<le> length (drop B rest)"
          and sv3: "serving h (r\<lparr>bufptr := bufptr r + used\<rparr>)"
          and pd3: "pending (r\<lparr>bufptr := bufptr r + used\<rparr>) = drop used' (drop B rest)"
          unfolding st r3 by simp_all
        have o: "out = xs @ out'" unfolding out nm xs_def pel_def [symmetric] em ..
        have tb: "temp + m * B + length out' = temp + length out" by (simp add: o lxs)
        have bb: "int (budget - m * B) - int (length out') = int budget - int (length out)"
          using nb by (simp add: o lxs)
        have "unpack_loop h (r, w, row, temp, int budget) =
                Exit (r\<lparr>bufptr := bufptr r + used\<rparr>, w, store row temp out, temp + length out,
                      int budget - int (length out))"
          unfolding loop step ib sum.case l tb bb o ..
        moreover have "length out \<le> budget" using lo' nb lxs by (simp add: o)
        moreover have "used \<le> length wire" using u ln by (simp add: used wire)
        moreover have "pending (r\<lparr>bufptr := bufptr r + used\<rparr>) = drop used wire"
          using pd3 by (simp add: used wire add.commute)
        ultimately show ?thesis using sv3 by simp
      qed
    qed
  qed
qed

subsection \<open>One call of \<^verbatim>\<open>cupsRasterReadPixels\<close> for one row\<close>

lemma serving_count [simp]: "serving h (r\<lparr>count := c\<rparr>) = serving h r"
  by (simp add: serving_def buffer_ok_def)

lemma pending_count [simp]: "pending (r\<lparr>count := c\<rparr>) = pending r"
  by (simp add: pending_def)

lemma cups_swap_none [simp]: "cups_swap buf 0 = buf"
  by (simp add: cups_swap_def)

lemma slice_whole: "length mem = n \<Longrightarrow> slice mem 0 n = mem"
  by (simp add: slice_def)

lemma new_row_decodes:
  assumes rd: "cups_raster_read h r 1 w = (1, [rep], r1, w1)"
    and sv: "serving h r1" and pd: "pending r1 = wire"
    and bp: "bpp r = int B" and B: "0 < B" and mx: "257 * int B \<le> INT_MAX"
    and L: "cupsBytesPerLine h (header r) = L" and N: "unat L = N" and sL: "sint L = int N"
    and ur: "packbits_row B N wire = Some (out, used)" and lo: "length out = N"
    and lp: "length p = N" and lpx: "length (pixels r) = N"
  shows "new_row h (r, w, p, 0, L) =
           Inr (r1\<lparr>count := uint rep, remaining := remaining r1 - 1, pcurrent := 0,
                   bufptr := bufptr r1 + used,
                   pixels := (if rep = 0 then pixels r1 else out)\<rparr>, w1, out, N, 0)"
proof -
  from cups_raster_read_same [OF rd] have same: "same_page r r1" .
  then have hd: "header r1 = header r" and b1: "bpp r1 = int B" and px: "pixels r1 = pixels r"
    by (simp_all add: same_page_def bp)
  define r2 where "r2 = r1\<lparr>count := uint rep + 1\<rparr>"
  have sv2: "serving h r2" and pd2: "pending r2 = wire" and b2: "bpp r2 = int B"
    by (simp_all add: r2_def sv pd b1)
  define direct where "direct \<longleftrightarrow> rep = 0"
  have dir: "(L = L \<and> \<not> count r2 > 1) = direct"
    by (simp add: r2_def direct_def uint_0_iff order_less_le)
  define row where "row = (if direct then slice p 0 (unat L) else pixels r2)"
  have lrow: "length row = N"
    by (simp add: row_def N slice_whole [OF lp] lp r2_def px lpx)
  then have fit: "0 + N \<le> length row" by simp
  from unpack_loop_refines [OF B mx ur sv2 pd2 b2 fit, of w1]
  have ul: "unpack_loop h (r2, w1, row, 0, int N) =
              Exit (r2\<lparr>bufptr := bufptr r2 + used\<rparr>, w1, out, N, 0)"
    by (simp add: lo store_whole lrow)
  define r3 where "r3 = r2\<lparr>bufptr := bufptr r2 + used\<rparr>"
  have h3: "cupsBytesPerLine h (header r3) = L" by (simp add: r3_def r2_def hd L)
  have wL: "(word_of_nat N :: u32) = L" unfolding N [symmetric] by simp
  have rdn: "row_done h direct p 0 L (r3, w1, out, N, 0) =
               Inr (r1\<lparr>count := uint rep, remaining := remaining r1 - 1, pcurrent := 0,
                       bufptr := bufptr r1 + used,
                       pixels := (if rep = 0 then pixels r1 else out)\<rparr>, w1, out, N, 0)"
    unfolding row_done_def prod.case Let_def h3
    by (simp add: sL wL lo lp store_whole slice_whole r3_def r2_def direct_def)
  have one: "((1 :: int) = 0) = False" by simp
  show ?thesis
    unfolding new_row_def prod.case rd Let_def L list.case one if_False
    unfolding r2_def [symmetric] dir
    unfolding row_def [symmetric] sL ul outcome.case r3_def [symmetric] rdn ..
qed

lemma first_row_call:
  assumes md: "mode r = CUPS_RASTER_READ" and rem: "0 <s remaining r" and c0: "count r = 0"
    and rd: "cups_raster_read h r 1 w = (1, [rep], r1, w1)"
    and sv: "serving h r1" and pd: "pending r1 = wire"
    and bp: "bpp r = int B" and B: "0 < B" and mx: "257 * int B \<le> INT_MAX"
    and L: "cupsBytesPerLine h (header r) = L" and N: "unat L = N" and sL: "sint L = int N"
    and ur: "packbits_row B N wire = Some (out, used)" and lo: "length out = N"
    and lp: "length p = N" and lpx: "length (pixels r) = N" and N0: "0 < N"
  shows "cupsRasterReadPixels h (Some r) p L w =
           Inr (L, Some (r1\<lparr>count := uint rep, remaining := remaining r - 1, pcurrent := 0,
                            bufptr := bufptr r1 + used,
                            pixels := (if rep = 0 then pixels r else out)\<rparr>), out, w1)"
proof -
  from cups_raster_read_same [OF rd] have same: "same_page r r1" .
  then have px: "pixels r1 = pixels r" and rm: "remaining r1 = remaining r"
    and cm: "compressed r1 = compressed r"
    by (simp_all add: same_page_def)
  from sv cm have comp: "compressed r" by (simp add: serving_def)
  from rem have r0: "remaining r \<noteq> 0" by auto
  from N N0 have Lp: "0 < L" by (simp add: word_greater_zero_iff unat_gt_0 [symmetric])
  note nr = new_row_decodes [OF rd sv pd bp B mx L N sL ur lo lp lpx, unfolded px rm]
  define r' where "r' = r1\<lparr>count := uint rep, remaining := remaining r - 1, pcurrent := 0,
                            bufptr := bufptr r1 + used,
                            pixels := (if rep = 0 then pixels r else out)\<rparr>"
  have l2: "pixels_loop h (r', w1, out, N, 0) = Exit (r', w1, out)"
    by (simp add: pixels_loop.simps [of h r' w1 out N 0])
  have l1: "pixels_loop h (r, w, p, 0, L) = Exit (r', w1, out)"
    unfolding pixels_loop.simps [of h r w p 0 L] nr r'_def [symmetric]
    using Lp rem c0 l2 by simp
  show ?thesis
    unfolding cupsRasterReadPixels_def option.case L l1 r'_def [symmetric]
    using md r0 comp by simp
qed




subsection \<open>The examples of compressed pages\<close>

lemma hdr16_fields:
  "cupsBytesPerLine cups_le hdr16 = 4"
  "cupsHeight cups_le hdr16 = 3"
  "cupsBitsPerColor cups_le hdr16 = 16"
  "cupsBitsPerPixel cups_le hdr16 = 16"
  "cupsColorOrder cups_le hdr16 = 0"
  "cupsColorSpace cups_le hdr16 = 3"
  "cupsNumColors cups_le hdr16 = 0"
  "cupsBytesPerLine cups_le (put32 cups_le hdr16 420 1) = 4"
  "cupsHeight cups_le (put32 cups_le hdr16 420 1) = 3"
  "cupsBitsPerColor cups_le (put32 cups_le hdr16 420 1) = 16"
  "cupsBitsPerPixel cups_le (put32 cups_le hdr16 420 1) = 16"
  "cupsColorOrder cups_le (put32 cups_le hdr16 420 1) = 0"
  "cupsColorSpace cups_le (put32 cups_le hdr16 420 1) = 3"
  "cupsNumColors cups_le (put32 cups_le hdr16 420 1) = 1"
  by (simp_all add: cupsBytesPerLine_def cupsHeight_def cupsBitsPerColor_def cupsBitsPerPixel_def
      cupsColorOrder_def cupsColorSpace_def cupsNumColors_def cups_le_simps hdr16_def hdr_ex_def)

lemma swapped16_ex_simps:
  "mode swapped16_ex = CUPS_RASTER_READ" "compressed swapped16_ex" "swapped swapped16_ex"
  "header swapped16_ex = put32 cups_le hdr16 420 1" "bpp swapped16_ex = 2"
  "remaining swapped16_ex = 3" "count swapped16_ex = 0" "pixels swapped16_ex = [0, 0, 0, 0]"
  "pend swapped16_ex = 4" "pcurrent swapped16_ex = 0" "buffer swapped16_ex = []"
  "bufptr swapped16_ex = 0" "bufend swapped16_ex = 0" "bufsize swapped16_ex = 0"
proof -
  have hd: "header swapped16_ex = put32 cups_le hdr16 420 1"
    by (simp add: swapped16_ex_def cups_raster_update_def Let_def calloc_raster_def hdr16_fields
        cups_le_simps cspace_1_2_def)
  have four: "replicate 4 (0 :: byte) = [0, 0, 0, 0]" by (simp add: eval_nat_numeral)
  show "header swapped16_ex = put32 cups_le hdr16 420 1" by (rule hd)
  show "mode swapped16_ex = CUPS_RASTER_READ" "compressed swapped16_ex" "swapped swapped16_ex"
    "count swapped16_ex = 0" "pcurrent swapped16_ex = 0"
    "buffer swapped16_ex = []" "bufptr swapped16_ex = 0" "bufend swapped16_ex = 0"
    "bufsize swapped16_ex = 0"
    by (simp_all add: swapped16_ex_def cups_raster_update_def Let_def calloc_raster_def)
  show "bpp swapped16_ex = 2" "remaining swapped16_ex = 3"
    using update_fields [of cups_le "(calloc_raster cups_le 3 CUPS_RASTER_READ)
        \<lparr>sync := CUPS_RASTER_REVSYNCv2 cups_le, header := hdr16, compressed := True,
          swapped := True\<rparr>"]
    unfolding swapped16_ex_def [symmetric] hd by (simp_all add: hdr16_fields cups_le_simps)
  have "pixels swapped16_ex = replicate (unat (cupsBytesPerLine cups_le (header swapped16_ex))) 0 \<and>
        pend swapped16_ex = unat (cupsBytesPerLine cups_le (header swapped16_ex))"
    by (simp add: swapped16_ex_def cups_raster_update_def Let_def calloc_raster_def)
  then show "pixels swapped16_ex = [0, 0, 0, 0]" "pend swapped16_ex = 4"
    unfolding hd by (simp_all add: hdr16_fields four)
qed

lemma swapped16_mid_simps:
  "compressed swapped16_mid" "header swapped16_mid = put32 cups_le hdr16 420 1"
  "buffer swapped16_mid = [0, 1, 0x11, 0x22, 9, 9, 9, 9]" "bufptr swapped16_mid = 1"
  "bufend swapped16_mid = 8" "bufsize swapped16_mid = 8"
  by (simp_all add: swapped16_mid_def swapped16_ex_simps)

lemma swapped16_read:
  "cups_raster_read cups_le swapped16_ex 1 (w_sync [0, 1, 0x11, 0x22, 9, 9, 9, 9, 9]) =
     (1, [0], swapped16_mid, w_sync [9])"
  by (simp add: cups_raster_read_def swapped16_ex_simps swapped16_mid_simps
      hdr16_fields Let_def alloc_def
      w_sync_def raster_read_loop.simps raster_read_step_def raster_copy_def cups_read_def
      cups_read_loop.simps cups_read_step_def store_def slice_def replicate_8 swapped16_mid_def)

lemma mid_serving:
  "serving cups_le packed_mid" "pending packed_mid = [3, 0xaa, 0, 3, 0xbb, 7, 7]"
  "serving cups_le swapped16_mid" "pending swapped16_mid = [1, 0x11, 0x22, 9, 9, 9, 9]"
  by (simp_all add: serving_def pending_def buffer_ok_def packed_mid_simps swapped16_mid_simps
      hdr_ex_K_fields hdr16_fields slice_def)

lemma packbits_row_done: "packbits_row B 0 wire = Some ([], 0)"
  by (simp add: packbits_row.simps [of B 0 wire])

lemma replicate_4: "replicate 4 x = [x, x, x, x]"
proof -
  have "(4 :: nat) = Suc (Suc (Suc (Suc 0)))" by simp
  then show ?thesis by (simp only: replicate.simps)
qed

lemma packbits_row_examples:
  "packbits_row 1 4 [3, 0xaa, 0, 3, 0xbb, 7, 7] = Some ([0xaa, 0xaa, 0xaa, 0xaa], 2)"
  "packbits_row 2 4 [1, 0x11, 0x22, 9, 9, 9, 9] = Some ([0x11, 0x22, 0x11, 0x22], 3)"
  by (simp_all add: packbits_row.simps [of _ 4] packbits_row_done replicate_4)


lemma hdr_odd_fields:
  "cupsNumColors cups_le hdr_odd = 0"
  "cupsColorSpace cups_le hdr_odd = 3"
  "cupsBitsPerPixel cups_le hdr_odd = 16"
  "cupsBytesPerLine cups_le (put32 cups_le hdr_odd 420 1) = 3"
  "cupsHeight cups_le (put32 cups_le hdr_odd 420 1) = 3"
  "cupsBitsPerColor cups_le (put32 cups_le hdr_odd 420 1) = 16"
  "cupsBitsPerPixel cups_le (put32 cups_le hdr_odd 420 1) = 16"
  "cupsColorOrder cups_le (put32 cups_le hdr_odd 420 1) = 0"
  "cupsColorSpace cups_le (put32 cups_le hdr_odd 420 1) = 3"
  "cupsNumColors cups_le (put32 cups_le hdr_odd 420 1) = 1"
  by (simp_all add: cupsBytesPerLine_def cupsHeight_def cupsBitsPerColor_def cupsBitsPerPixel_def
      cupsColorOrder_def cupsColorSpace_def cupsNumColors_def cups_le_simps hdr_odd_def hdr16_def
      hdr_ex_def)

lemma replicate_3: "replicate 3 x = [x, x, x]"
proof -
  have "(3 :: nat) = Suc (Suc (Suc 0))" by simp
  then show ?thesis by (simp only: replicate.simps)
qed

lemma replicate_6: "replicate 6 x = [x, x, x, x, x, x]"
proof -
  have "(6 :: nat) = Suc (Suc (Suc (Suc (Suc (Suc 0)))))" by simp
  then show ?thesis by (simp only: replicate.simps)
qed

lemma odd_ex_simps:
  "mode odd_ex = CUPS_RASTER_READ" "compressed odd_ex" "\<not> swapped odd_ex"
  "header odd_ex = put32 cups_le hdr_odd 420 1" "bpp odd_ex = 2"
  "remaining odd_ex = 3" "count odd_ex = 0" "pixels odd_ex = [0, 0, 0]"
  "pend odd_ex = 3" "pcurrent odd_ex = 0" "buffer odd_ex = []"
  "bufptr odd_ex = 0" "bufend odd_ex = 0" "bufsize odd_ex = 0"
proof -
  have hd: "header odd_ex = put32 cups_le hdr_odd 420 1"
    by (simp add: odd_ex_def cups_raster_update_def Let_def calloc_raster_def hdr_odd_fields
        cups_le_simps cspace_1_2_def)
  show "header odd_ex = put32 cups_le hdr_odd 420 1" by (rule hd)
  show "mode odd_ex = CUPS_RASTER_READ" "compressed odd_ex" "\<not> swapped odd_ex"
    "count odd_ex = 0" "pcurrent odd_ex = 0"
    "buffer odd_ex = []" "bufptr odd_ex = 0" "bufend odd_ex = 0"
    "bufsize odd_ex = 0"
    by (simp_all add: odd_ex_def cups_raster_update_def Let_def calloc_raster_def)
  show "bpp odd_ex = 2" "remaining odd_ex = 3"
    using update_fields [of cups_le "(calloc_raster cups_le 3 CUPS_RASTER_READ)
        \<lparr>sync := CUPS_RASTER_SYNCv2 cups_le, header := hdr_odd, compressed := True\<rparr>"]
    unfolding odd_ex_def [symmetric] hd by (simp_all add: hdr_odd_fields cups_le_simps)
  have "pixels odd_ex = replicate (unat (cupsBytesPerLine cups_le (header odd_ex))) 0 \<and>
        pend odd_ex = unat (cupsBytesPerLine cups_le (header odd_ex))"
    by (simp add: odd_ex_def cups_raster_update_def Let_def calloc_raster_def)
  then show "pixels odd_ex = [0, 0, 0]" "pend odd_ex = 3"
    unfolding hd by (simp_all add: hdr_odd_fields replicate_3)
qed





text \<open>
  On that page a repeat run clamped to three bytes is a pel and a half. The code
  copies whole pels: the second copy ends one byte past the row.
\<close>

lemma odd_overrun:
  "cupsRasterReadPixels cups_le (Some odd_ex) [0, 0, 0] 3 (w_sync [0, 1, 1, 2, 9, 9, 9]) =
     Inl OutOfBounds"
proof -
  let ?m = "odd_ex\<lparr>buffer := [0, 1, 1, 2, 9, 9], bufptr := 1, bufend := 6, bufsize := 6\<rparr>"
  have rd: "cups_raster_read cups_le odd_ex 1 (w_sync [0, 1, 1, 2, 9, 9, 9]) =
              (1, [0], ?m, w_sync [9])"
    by (simp add: cups_raster_read_def odd_ex_simps hdr_odd_fields Let_def alloc_def
        w_sync_def raster_read_loop.simps raster_read_step_def raster_copy_def cups_read_def
        cups_read_loop.simps cups_read_step_def store_def slice_def replicate_6)
  let ?r2 = "?m\<lparr>count := 1\<rparr>"
  have sv: "serving cups_le ?r2" and pd: "pending ?r2 = [1] @ [1, 2, 9, 9]"
    by (simp_all add: serving_def pending_def buffer_ok_def odd_ex_simps hdr_odd_fields slice_def)
  have ne: "[1 :: byte] \<noteq> []" by simp
  note s1 = serve [OF sv pd ne]
  let ?r3 = "?r2\<lparr>bufptr := bufptr ?r2 + length [1 :: byte]\<rparr>"
  have pd3: "pending ?r3 = [1, 2] @ [9, 9]" using s1(3) by simp
  have ne3: "[1, 2 :: byte] \<noteq> []" by simp
  note s2 = serve [OF s1(2) pd3 ne3]
  have rp: "repeat_pel 2 [1, 2, 0] 2 1 = Inl OutOfBounds"
    by (simp add: repeat_pel.simps [of 2 _ 2 1])
  have rr: "repeat_run cups_le 1 (?r3, w_sync [9], [0, 0, 0], 0, 3) = Inl (Fault OutOfBounds)"
    unfolding repeat_run_def prod.case Let_def
    using s2(1) [of "w_sync [9]"] rp
    by (simp add: odd_ex_simps INT_MAX_def store_def)
  have us: "unpack_step cups_le (?r2, w_sync [9], [0, 0, 0], 0, 3) = Inl (Fault OutOfBounds)"
    unfolding unpack_step_def prod.case
    using s1(1) [of "w_sync [9]"] rr by simp
  have ul: "unpack_loop cups_le (?r2, w_sync [9], [0, 0, 0], 0, 3) = Fault OutOfBounds"
    unfolding unpack_loop.simps [of cups_le ?r2 _ _ 0 3] us by simp
  have nr: "new_row cups_le (odd_ex, w_sync [0, 1, 1, 2, 9, 9, 9], [0, 0, 0], 0, 3) =
              Inl (Fault OutOfBounds)"
    unfolding new_row_def prod.case rd Let_def
    using ul by (simp add: odd_ex_simps hdr_odd_fields slice_def)
  have pl: "pixels_loop cups_le (odd_ex, w_sync [0, 1, 1, 2, 9, 9, 9], [0, 0, 0], 0, 3) =
              Fault OutOfBounds"
    unfolding pixels_loop.simps [of cups_le odd_ex _ _ 0 3] nr
    by (simp add: odd_ex_simps word_sless_alt)
  show ?thesis
    unfolding cupsRasterReadPixels_def option.case pl
    by (simp add: odd_ex_simps)
qed

subsection \<open>A row block\<close>




subsection \<open>The byte order of a compressed row\<close>

text \<open>
  Claim C4. On the stream \<open>swapped16_ex\<close> (16 bits to the pixel, byte-swapped,
  compressed) the row block \<open>00 01 11 22\<close> decodes to the row \<open>11 22 11 22\<close>, and
  that is what \<^verbatim>\<open>cupsRasterReadPixels\<close> delivers: the test for the swap holds,
  but \<^verbatim>\<open>cups_swap(ptr, bytes)\<close> gets the \<^verbatim>\<open>bytes\<close> that the opcode loop has
  counted down to 0 and exchanges no pair. The row with its pairs exchanged would
  be \<open>22 11 22 11\<close>.
\<close>

theorem compressed_row_not_swapped:
  "swap_needed cups_le swapped16_ex \<and>
   cupsRasterReadPixels cups_le (Some swapped16_ex) [0, 0, 0, 0] 4
       (w_sync [0, 1, 0x11, 0x22, 9, 9, 9, 9, 9]) =
     Inr (4, Some (swapped16_mid\<lparr>count := 0, remaining := 2, pcurrent := 0, bufptr := 4,
                                  pixels := [0, 0, 0, 0]\<rparr>),
          [0x11, 0x22, 0x11, 0x22], w_sync [9]) \<and>
   cups_swap [0x11, 0x22, 0x11, 0x22] 4 = [0x22, 0x11, 0x22, 0x11]"
proof -
  have h: "mode swapped16_ex = CUPS_RASTER_READ" "0 <s remaining swapped16_ex"
    "count swapped16_ex = 0" "bpp swapped16_ex = int 2" "(0 :: nat) < 2" "257 * int 2 \<le> INT_MAX"
    "cupsBytesPerLine cups_le (header swapped16_ex) = 4" "unat (4 :: u32) = 4"
    "sint (4 :: u32) = int 4" "length [0x11, 0x22, 0x11, 0x22 :: byte] = 4"
    "length [0, 0, 0, 0 :: byte] = 4" "length (pixels swapped16_ex) = 4" "(0 :: nat) < 4"
    by (simp_all add: swapped16_ex_simps hdr16_fields INT_MAX_def word_sless_alt)
  note t = first_row_call [OF h(1,2,3) swapped16_read mid_serving(3,4) h(4,5,6,7,8,9)
      packbits_row_examples(2) h(10,11,12,13)]
  have sw: "swap_needed cups_le swapped16_ex"
    by (simp add: swap_needed_def swapped16_ex_simps hdr16_fields)
  have two: "nat (4 div 2) = Suc (Suc 0)" by simp
  have cs: "cups_swap [0x11, 0x22, 0x11, 0x22] 4 = [0x22, 0x11, 0x22, 0x11]"
    unfolding cups_swap_def two by simp
  from t have "cupsRasterReadPixels cups_le (Some swapped16_ex) [0, 0, 0, 0] 4
       (w_sync [0, 1, 0x11, 0x22, 9, 9, 9, 9, 9]) =
     Inr (4, Some (swapped16_mid\<lparr>count := 0, remaining := 2, pcurrent := 0, bufptr := 4,
                                  pixels := [0, 0, 0, 0]\<rparr>),
          [0x11, 0x22, 0x11, 0x22], w_sync [9])"
    by (simp add: swapped16_ex_simps swapped16_mid_simps)
  with sw cs show ?thesis by simp
qed

theorem compressed_row_not_swapped_witness:
  "\<exists>ro w'. cupsRasterReadPixels cups_le (Some swapped16_ex) [0, 0, 0, 0] 4
       (w_sync [0, 1, 0x11, 0x22, 9, 9, 9, 9, 9]) = Inr (4, ro, [0x11, 0x22, 0x11, 0x22], w') \<and>
     cups_swap [0x11, 0x22, 0x11, 0x22] 4 \<noteq> [0x11, 0x22, 0x11, 0x22]"
  using compressed_row_not_swapped by simp

end
